theory Spec2Isabelle
  imports Complex_Main "HOL-Library.Log_Nat"
begin

section \<open>Python values used by the script\<close>

subsection \<open>Floats\<close>

text \<open>
  A Python \<open>float\<close> is an IEEE 754 binary64 number: a finite value, one of the two
  infinities, or NaN. Finite values are carried as exact rationals; every arithmetic
  result is rounded to the nearest binary64 value, ties to even (\<open>round_b64\<close>), with
  gradual underflow below \<open>2^-1022\<close> and overflow to infinity from \<open>2^1024\<close> on.
  The sign of zero is not represented: the script never prints a float into its output
  text and Python raises on every division by zero, so the two zeros behave alike.
\<close>

datatype pyfloat = NaN | NInf | Fin rat | PInf

definition pow2 :: "int \<Rightarrow> rat" where
  "pow2 e = (if 0 \<le> e then 2 ^ nat e else 1 / 2 ^ nat (- e))"

definition round_half_even :: "rat \<Rightarrow> int" where
  "round_half_even q =
     (let f = \<lfloor>q\<rfloor>; d = q - of_int f
      in if d < 1 / 2 then f else if 1 / 2 < d then f + 1 else if even f then f else f + 1)"

text \<open>\<open>floor_log2 q\<close> is the binary exponent of a positive rational:
  \<open>2 ^ floor_log2 q \<le> q < 2 ^ (floor_log2 q + 1)\<close>.\<close>

definition floor_log2 :: "rat \<Rightarrow> int" where
  "floor_log2 q =
     (if 1 \<le> q then bitlen \<lfloor>q\<rfloor> - 1 else - bitlen (\<lceil>1 / q\<rceil> - 1))"

text \<open>The magnitude of the binary64 value nearest to a positive rational, before the
  overflow test: 53 significant bits, exponent not below \<open>-1022\<close>.\<close>

definition round_mag :: "rat \<Rightarrow> rat" where
  "round_mag a =
     (let e = max (floor_log2 a) (- 1022); u = pow2 (e - 52)
      in of_int (round_half_even (a / u)) * u)"

definition round_b64 :: "rat \<Rightarrow> pyfloat" where
  "round_b64 q =
     (if q = 0 then Fin 0
      else let m = round_mag \<bar>q\<bar>
           in if pow2 1024 \<le> m then (if 0 < q then PInf else NInf)
              else Fin (if 0 < q then m else - m))"

text \<open>Python's comparisons \<open>a < b\<close> and \<open>a <= b\<close> on floats: false whenever a NaN is
  involved, the order of the extended number line otherwise.\<close>

fun fless :: "pyfloat \<Rightarrow> pyfloat \<Rightarrow> bool" where
  "fless NaN _ = False"
| "fless _ NaN = False"
| "fless PInf _ = False"
| "fless _ NInf = False"
| "fless NInf _ = True"
| "fless _ PInf = True"
| "fless (Fin a) (Fin b) = (a < b)"

definition fle :: "pyfloat \<Rightarrow> pyfloat \<Rightarrow> bool" where
  "fle a b = (a \<noteq> NaN \<and> b \<noteq> NaN \<and> (a = b \<or> fless a b))"

text \<open>\<open>max(a, b)\<close> keeps its first argument unless the second is greater; \<open>min(a, b)\<close>
  keeps its first argument unless the second is smaller.\<close>

definition pymax :: "pyfloat \<Rightarrow> pyfloat \<Rightarrow> pyfloat" where
  "pymax a b = (if fless a b then b else a)"

definition pymin :: "pyfloat \<Rightarrow> pyfloat \<Rightarrow> pyfloat" where
  "pymin a b = (if fless b a then b else a)"

fun fneg :: "pyfloat \<Rightarrow> pyfloat" where
  "fneg NaN = NaN"
| "fneg NInf = PInf"
| "fneg PInf = NInf"
| "fneg (Fin a) = Fin (- a)"

fun fsub :: "pyfloat \<Rightarrow> pyfloat \<Rightarrow> pyfloat" where
  "fsub NaN _ = NaN"
| "fsub _ NaN = NaN"
| "fsub PInf PInf = NaN"
| "fsub NInf NInf = NaN"
| "fsub PInf _ = PInf"
| "fsub NInf _ = NInf"
| "fsub _ PInf = NInf"
| "fsub _ NInf = PInf"
| "fsub (Fin a) (Fin b) = round_b64 (a - b)"

definition signed_inf :: "bool \<Rightarrow> pyfloat" where
  "signed_inf positive = (if positive then PInf else NInf)"

fun fmul :: "pyfloat \<Rightarrow> pyfloat \<Rightarrow> pyfloat" where
  "fmul NaN _ = NaN"
| "fmul _ NaN = NaN"
| "fmul (Fin a) (Fin b) = round_b64 (a * b)"
| "fmul (Fin a) PInf = (if a = 0 then NaN else signed_inf (0 < a))"
| "fmul (Fin a) NInf = (if a = 0 then NaN else signed_inf (a < 0))"
| "fmul PInf (Fin b) = (if b = 0 then NaN else signed_inf (0 < b))"
| "fmul NInf (Fin b) = (if b = 0 then NaN else signed_inf (b < 0))"
| "fmul PInf PInf = PInf"
| "fmul NInf NInf = PInf"
| "fmul PInf NInf = NInf"
| "fmul NInf PInf = NInf"

subsection \<open>Exceptions\<close>

text \<open>
  The exceptions the script can raise. \<open>FormatError\<close>, \<open>InvalidBoxError\<close> and
  \<open>OverlapError\<close> are the three \<open>ValueError\<close>s raised by \<open>parse_cols_spec\<close>
  (messages "Invalid column spec: 'p' (missing ':')", "Box with x1<=x0: 'p' ..." and
  "Column boxes overlap or are not ordered: b vs b'"); \<open>FloatValueError\<close> is the
  \<open>ValueError\<close> of the builtin \<open>float()\<close> ("could not convert string to float").
\<close>

type_synonym box = "pyfloat \<times> pyfloat"

datatype pyerror =
    FormatError string
  | InvalidBoxError string pyfloat pyfloat
  | OverlapError box box
  | FloatValueError string
  | ZeroDivisionError
  | OverflowError
  | IndexError
  | FileNotFoundError

text \<open>Float division raises on a zero divisor, whatever the dividend.\<close>

fun fdiv :: "pyfloat \<Rightarrow> pyfloat \<Rightarrow> pyerror + pyfloat" where
  "fdiv a (Fin b) =
     (if b = 0 then Inl ZeroDivisionError
      else case a of
             NaN \<Rightarrow> Inr NaN
           | Fin x \<Rightarrow> Inr (round_b64 (x / b))
           | PInf \<Rightarrow> Inr (signed_inf (0 < b))
           | NInf \<Rightarrow> Inr (signed_inf (b < 0)))"
| "fdiv a NaN = Inr NaN"
| "fdiv (Fin x) _ = Inr (Fin 0)"
| "fdiv _ _ = Inr NaN"

text \<open>\<open>float(n)\<close> of an integer, also the conversion applied to the integer operand of
  \<open>i * step\<close>: correctly rounded, \<open>OverflowError\<close> when out of range.\<close>

definition float_of_int :: "int \<Rightarrow> pyerror + pyfloat" where
  "float_of_int i =
     (case round_b64 (of_int i) of
        Fin q \<Rightarrow> Inr (Fin q)
      | _ \<Rightarrow> Inl OverflowError)"

subsection \<open>Strings\<close>

text \<open>
  Strings are lists of characters with code points below 256. \<open>whitespace\<close> lists the
  characters \<open>str.strip\<close> removes, \<open>linebreaks\<close> the boundaries \<open>str.splitlines\<close>
  splits at (the pair CR LF counts as one boundary).
\<close>

definition whitespace :: "char list" where
  "whitespace = [CHR 0x09, CHR 0x0A, CHR 0x0B, CHR 0x0C, CHR 0x0D, CHR 0x1C, CHR 0x1D,
                 CHR 0x1E, CHR 0x1F, CHR 0x20, CHR 0x85, CHR 0xA0]"

definition linebreaks :: "char list" where
  "linebreaks = [CHR 0x0A, CHR 0x0B, CHR 0x0C, CHR 0x0D, CHR 0x1C, CHR 0x1D, CHR 0x1E,
                 CHR 0x85]"

definition isspace :: "char \<Rightarrow> bool" where
  "isspace c = (c \<in> set whitespace)"

definition is_linebreak :: "char \<Rightarrow> bool" where
  "is_linebreak c = (c \<in> set linebreaks)"

definition lstrip :: "string \<Rightarrow> string" where
  "lstrip s = dropWhile isspace s"

definition rstrip :: "string \<Rightarrow> string" where
  "rstrip s = rev (dropWhile isspace (rev s))"

definition strip :: "string \<Rightarrow> string" where
  "strip s = lstrip (rstrip s)"

fun splitlines_from :: "string \<Rightarrow> string \<Rightarrow> string list" where
  "splitlines_from cur [] = (if cur = [] then [] else [cur])"
| "splitlines_from cur (c # cs) =
     (if c = CHR 0x0D \<and> cs \<noteq> [] \<and> hd cs = CHR 0x0A then cur # splitlines_from [] (tl cs)
      else if is_linebreak c then cur # splitlines_from [] cs
      else splitlines_from (cur @ [c]) cs)"

definition splitlines :: "string \<Rightarrow> string list" where
  "splitlines s = splitlines_from [] s"

text \<open>\<open>s.split(sep)\<close> for a one-character separator; the result is never empty.\<close>

fun split_on :: "char \<Rightarrow> string \<Rightarrow> string list" where
  "split_on sep [] = [[]]"
| "split_on sep (c # cs) =
     (if c = sep then [] # split_on sep cs
      else case split_on sep cs of
             p # ps \<Rightarrow> (c # p) # ps
           | [] \<Rightarrow> [[c]])"

fun join :: "string \<Rightarrow> string list \<Rightarrow> string" where
  "join sep [] = []"
| "join sep [x] = x"
| "join sep (x # y # ys) = x @ sep @ join sep (y # ys)"

text \<open>\<open>str.lower\<close> on code points below 256: the ASCII capitals and the Latin-1
  capitals (U+00C0 to U+00DE without the multiplication sign) move up by 32.\<close>

definition lower_char :: "char \<Rightarrow> char" where
  "lower_char c =
     (let n = (of_char c :: nat)
      in if (65 \<le> n \<and> n \<le> 90) \<or> (192 \<le> n \<and> n \<le> 222 \<and> n \<noteq> 215)
         then char_of (n + 32) else c)"

definition lower :: "string \<Rightarrow> string" where
  "lower s = map lower_char s"

fun starts_with :: "string \<Rightarrow> string \<Rightarrow> bool" where
  "starts_with [] _ = True"
| "starts_with (p # ps) [] = False"
| "starts_with (p # ps) (c # cs) = (p = c \<and> starts_with ps cs)"

text \<open>\<open>tok in s\<close>: the substring test.\<close>

fun contains :: "string \<Rightarrow> string \<Rightarrow> bool" where
  "contains tok [] = (tok = [])"
| "contains tok (c # cs) = (starts_with tok (c # cs) \<or> contains tok cs)"

subsection \<open>Sorting\<close>

text \<open>
  \<open>sorted(xs, key=f)\<close> computes the list of keys, sorts the positions by comparing keys
  with \<open><\<close> only, and returns the elements in that order. The keys of the script are
  floats and pairs of floats. Python's \<open>==\<close> on floats is \<open>feq\<close>; \<open><\<close> on pairs lets the
  first components that differ decide.
\<close>

definition feq :: "pyfloat \<Rightarrow> pyfloat \<Rightarrow> bool" where
  "feq a b = (a \<noteq> NaN \<and> b \<noteq> NaN \<and> a = b)"

datatype sortkey = FloatKey pyfloat | PairKey pyfloat pyfloat

fun key_less :: "sortkey \<Rightarrow> sortkey \<Rightarrow> bool" where
  "key_less (FloatKey a) (FloatKey b) = fless a b"
| "key_less (PairKey a1 a2) (PairKey b1 b2) =
     (if \<not> feq a1 b1 then fless a1 b1
      else if \<not> feq a2 b2 then fless a2 b2
      else False)"
| "key_less _ _ = False"

text \<open>
  What the interpreter's sort does with a list of keys is a parameter of the model: a
  \<open>sorter\<close> maps the list of keys to the list of positions in sorted order. CPython's sort
  returns a permutation of the positions whatever the comparisons answer, and it is
  stable; where \<open><\<close> orders the keys totally (no key holds a NaN) this fixes the result,
  which is the one stable insertion computes (\<open>stable_argsort\<close>). With a NaN among the
  keys the result depends on the order in which the implementation compares, and the
  model leaves it to the parameter. \<open>python_sorter\<close> states these two facts of a sorter.
\<close>

type_synonym sorter = "sortkey list \<Rightarrow> nat list"

definition py_sorted :: "sorter \<Rightarrow> ('a \<Rightarrow> sortkey) \<Rightarrow> 'a list \<Rightarrow> 'a list" where
  "py_sorted srt key xs = map (\<lambda>i. xs ! i) (srt (map key xs))"

fun insert_by :: "('a \<Rightarrow> 'a \<Rightarrow> bool) \<Rightarrow> 'a \<Rightarrow> 'a list \<Rightarrow> 'a list" where
  "insert_by lt x [] = [x]"
| "insert_by lt x (y # ys) = (if lt y x then y # insert_by lt x ys else x # y # ys)"

definition sorted_by :: "('a \<Rightarrow> 'a \<Rightarrow> bool) \<Rightarrow> 'a list \<Rightarrow> 'a list" where
  "sorted_by lt xs = foldr (insert_by lt) xs []"

definition stable_argsort :: sorter where
  "stable_argsort ks = sorted_by (\<lambda>i j. key_less (ks ! i) (ks ! j)) [0 ..< length ks]"

fun key_has_nan :: "sortkey \<Rightarrow> bool" where
  "key_has_nan (FloatKey a) = (a = NaN)"
| "key_has_nan (PairKey a b) = (a = NaN \<or> b = NaN)"

definition python_sorter :: "sorter \<Rightarrow> bool" where
  "python_sorter srt =
     (\<forall>ks. distinct (srt ks) \<and> set (srt ks) = {0 ..< length ks} \<and>
           (list_all (\<lambda>k. \<not> key_has_nan k) ks \<longrightarrow> srt ks = stable_argsort ks))"

section \<open>The script\<close>

subsection \<open>\<open>clean_lines\<close>\<close>

text \<open>
  The loop of \<open>clean_lines\<close> over the right-stripped lines: \<open>out\<close> and \<open>last_blank\<close>
  are the loop's two variables, one call of \<open>clean_step\<close> is one iteration.
\<close>

definition is_blank :: "string \<Rightarrow> bool" where
  "is_blank line = (strip line = [])"

definition clean_step :: "string list \<times> bool \<Rightarrow> string \<Rightarrow> string list \<times> bool" where
  "clean_step st line =
     (let blank = is_blank line
      in if blank \<and> snd st then st else (fst st @ [line], blank))"

definition clean_loop :: "string list \<Rightarrow> string list" where
  "clean_loop lns = fst (foldl clean_step ([], False) lns)"

definition clean_lines :: "string \<Rightarrow> string" where
  "clean_lines text =
     (if text = [] then []
      else strip (join [CHR 0x0A] (clean_loop (map rstrip (splitlines text)))))"

subsection \<open>The builtin \<open>float()\<close> on strings\<close>

text \<open>
  \<open>float(s)\<close> strips whitespace (its own set: unlike \<open>str.strip\<close> it keeps the
  separators U+001C to U+001F), reads an optional sign and then either \<open>inf\<close>,
  \<open>infinity\<close> or \<open>nan\<close> in any letter case, or a decimal number: digits with single
  underscores between them, an optional fraction, an optional exponent. The value is the
  decimal number correctly rounded. Anything else is a \<open>ValueError\<close>.
\<close>

definition float_whitespace :: "char list" where
  "float_whitespace = [CHR 0x09, CHR 0x0A, CHR 0x0B, CHR 0x0C, CHR 0x0D, CHR 0x20, CHR 0x85,
                       CHR 0xA0]"

definition float_strip :: "string \<Rightarrow> string" where
  "float_strip s =
     rev (dropWhile (\<lambda>c. c \<in> set float_whitespace)
            (rev (dropWhile (\<lambda>c. c \<in> set float_whitespace) s)))"

definition is_digit :: "char \<Rightarrow> bool" where
  "is_digit c = (c \<in> set ''0123456789'')"

definition digit_val :: "char \<Rightarrow> nat" where
  "digit_val c = length (takeWhile (\<lambda>d. d \<noteq> c) ''0123456789'')"

definition ascii_lower :: "char \<Rightarrow> char" where
  "ascii_lower c =
     (let n = (of_char c :: nat) in if 65 \<le> n \<and> n \<le> 90 then char_of (n + 32) else c)"

text \<open>The digits after the first one of a digit part, and what follows them.\<close>

fun digits_tail :: "string \<Rightarrow> nat list \<times> string" where
  "digits_tail [] = ([], [])"
| "digits_tail (c # cs) =
     (if is_digit c then (case digits_tail cs of (ds, r) \<Rightarrow> (digit_val c # ds, r))
      else if c = CHR ''_'' \<and> cs \<noteq> [] \<and> is_digit (hd cs)
           then (case digits_tail (tl cs) of (ds, r) \<Rightarrow> (digit_val (hd cs) # ds, r))
      else ([], c # cs))"

definition digitpart :: "string \<Rightarrow> (nat list \<times> string) option" where
  "digitpart s =
     (case s of
        [] \<Rightarrow> None
      | c # cs \<Rightarrow>
          if is_digit c then (case digits_tail cs of (ds, r) \<Rightarrow> Some (digit_val c # ds, r))
          else None)"

definition digits_value :: "nat list \<Rightarrow> nat" where
  "digits_value ds = foldl (\<lambda>a d. 10 * a + d) 0 ds"

definition pow10 :: "int \<Rightarrow> rat" where
  "pow10 e = (if 0 \<le> e then 10 ^ nat e else 1 / 10 ^ nat (- e))"

text \<open>The exponent part, which must reach the end of the string.\<close>

definition exponent_part :: "string \<Rightarrow> int option" where
  "exponent_part r =
     (case r of
        [] \<Rightarrow> Some 0
      | c # cs \<Rightarrow>
          if c = CHR ''e'' \<or> c = CHR ''E'' then
            (let neg = (cs \<noteq> [] \<and> hd cs = CHR ''-'');
                 ds = (if cs \<noteq> [] \<and> (hd cs = CHR ''-'' \<or> hd cs = CHR ''+'') then tl cs else cs)
             in case digitpart ds of
                  Some (es, []) \<Rightarrow> Some (if neg then - int (digits_value es) else int (digits_value es))
                | _ \<Rightarrow> None)
          else None)"

definition decimal_value :: "nat list \<Rightarrow> nat list \<Rightarrow> string \<Rightarrow> rat option" where
  "decimal_value ip fp r =
     (case exponent_part r of
        None \<Rightarrow> None
      | Some ex \<Rightarrow> Some (of_nat (digits_value (ip @ fp)) * pow10 (ex - int (length fp))))"

definition float_number :: "string \<Rightarrow> rat option" where
  "float_number r =
     (case digitpart r of
        Some (ip, r1) \<Rightarrow>
          if r1 \<noteq> [] \<and> hd r1 = CHR ''.'' then
            (case digitpart (tl r1) of
               Some (fp, r3) \<Rightarrow> decimal_value ip fp r3
             | None \<Rightarrow> decimal_value ip [] (tl r1))
          else decimal_value ip [] r1
      | None \<Rightarrow>
          if r \<noteq> [] \<and> hd r = CHR ''.'' then
            (case digitpart (tl r) of
               Some (fp, r3) \<Rightarrow> decimal_value [] fp r3
             | None \<Rightarrow> None)
          else None)"

text \<open>The value a string denotes, before rounding: \<open>Fin q\<close> carries the exact decimal.\<close>

definition float_literal :: "string \<Rightarrow> pyfloat option" where
  "float_literal s0 =
     (let s = float_strip s0;
          neg = (s \<noteq> [] \<and> hd s = CHR ''-'');
          r = (if s \<noteq> [] \<and> (hd s = CHR ''-'' \<or> hd s = CHR ''+'') then tl s else s);
          low = map ascii_lower r
      in if low = ''inf'' \<or> low = ''infinity'' then Some (if neg then NInf else PInf)
         else if low = ''nan'' then Some NaN
         else case float_number r of
                None \<Rightarrow> None
              | Some q \<Rightarrow> Some (Fin (if neg then - q else q)))"

fun round_value :: "pyfloat \<Rightarrow> pyfloat" where
  "round_value (Fin q) = round_b64 q"
| "round_value x = x"

definition py_float :: "string \<Rightarrow> pyerror + pyfloat" where
  "py_float s0 =
     (case float_literal s0 of
        None \<Rightarrow> Inl (FloatValueError s0)
      | Some v \<Rightarrow> Inr (round_value v))"

subsection \<open>The geometry spec parser\<close>

definition parse_coord :: "string \<Rightarrow> pyfloat \<Rightarrow> pyerror + pyfloat" where
  "parse_coord token width =
     (let t = strip token
      in if t \<noteq> [] \<and> last t = CHR ''%'' then
           (case py_float (butlast t) of
              Inl e \<Rightarrow> Inl e
            | Inr v \<Rightarrow>
                (case fdiv v (Fin 100) of
                   Inl e \<Rightarrow> Inl e
                 | Inr val \<Rightarrow> Inr (fmul val width)))
         else py_float t)"

text \<open>One iteration of the loop over the parts: the box of one token, or the exception
  that token raises.\<close>

definition parse_box :: "string \<Rightarrow> pyfloat \<Rightarrow> pyerror + box" where
  "parse_box p width =
     (if CHR '':'' \<notin> set p then Inl (FormatError p)
      else let a = takeWhile (\<lambda>c. c \<noteq> CHR '':'') p;
               b = tl (dropWhile (\<lambda>c. c \<noteq> CHR '':'') p)
           in case parse_coord a width of
                Inl e \<Rightarrow> Inl e
              | Inr x0 \<Rightarrow>
                  (case parse_coord b width of
                     Inl e \<Rightarrow> Inl e
                   | Inr x1 \<Rightarrow>
                       if fle x1 x0 then Inl (InvalidBoxError p x0 x1) else Inr (x0, x1)))"

fun parse_parts :: "string list \<Rightarrow> pyfloat \<Rightarrow> box list \<Rightarrow> pyerror + box list" where
  "parse_parts [] width boxes = Inr boxes"
| "parse_parts (p # ps) width boxes =
     (case parse_box p width of
        Inl e \<Rightarrow> Inl e
      | Inr b \<Rightarrow> parse_parts ps width (boxes @ [b]))"

text \<open>The overlap loop: index \<open>i\<close> runs from 1, comparing each box with the one before.\<close>

fun check_overlap :: "box list \<Rightarrow> pyerror option" where
  "check_overlap (b # c # bs) =
     (if fless (fst c) (snd b) then Some (OverlapError b c) else check_overlap (c # bs))"
| "check_overlap _ = None"

definition parse_cols_spec :: "sorter \<Rightarrow> string \<Rightarrow> pyfloat \<Rightarrow> pyerror + box list" where
  "parse_cols_spec srt spec width =
     (if spec = [] then Inr []
      else let parts = filter (\<lambda>p. strip p \<noteq> []) (split_on CHR '','' spec)
           in case parse_parts parts width [] of
                Inl e \<Rightarrow> Inl e
              | Inr boxes \<Rightarrow>
                  (let boxes_sorted = py_sorted srt (\<lambda>t. FloatKey (fst t)) boxes
                   in case check_overlap boxes_sorted of
                        Some e \<Rightarrow> Inl e
                      | None \<Rightarrow> Inr boxes_sorted))"

text \<open>\<open>i * step\<close> with an integer \<open>i\<close>: the integer is converted first.\<close>

definition int_times :: "int \<Rightarrow> pyfloat \<Rightarrow> pyerror + pyfloat" where
  "int_times i x = (case float_of_int i of Inl e \<Rightarrow> Inl e | Inr fi \<Rightarrow> Inr (fmul fi x))"

fun columns_loop :: "pyfloat \<Rightarrow> int list \<Rightarrow> box list \<Rightarrow> pyerror + box list" where
  "columns_loop step [] cols = Inr cols"
| "columns_loop step (i # is) cols =
     (case int_times i step of
        Inl e \<Rightarrow> Inl e
      | Inr lo \<Rightarrow>
          (case int_times (i + 1) step of
             Inl e \<Rightarrow> Inl e
           | Inr hi \<Rightarrow> columns_loop step is (cols @ [(lo, hi)])))"

text \<open>\<open>range(n)\<close>: the integers from 0 below \<open>n\<close>, none when \<open>n \<le> 0\<close>.\<close>

definition range_upto :: "int \<Rightarrow> int list" where
  "range_upto n = map int [0 ..< nat n]"

definition equal_columns :: "pyfloat \<Rightarrow> int \<Rightarrow> pyerror + box list" where
  "equal_columns width n =
     (case float_of_int n of
        Inl e \<Rightarrow> Inl e
      | Inr fn \<Rightarrow>
          (case fdiv width fn of
             Inl e \<Rightarrow> Inl e
           | Inr step \<Rightarrow> columns_loop step (range_upto n) []))"

subsection \<open>Glyphs and bold detection\<close>

text \<open>
  A glyph is the dictionary the PDF library supplies for one character. The script reads
  it with \<open>ch.get(key, default)\<close>, so a coordinate may be absent (\<open>None\<close>); an absent
  text or font name reads as the empty string.
\<close>

record glyph =
  ch_text :: string
  ch_x0 :: "pyfloat option"
  ch_x1 :: "pyfloat option"
  ch_top :: "pyfloat option"
  ch_fontname :: string

definition BOLD_TOKENS :: "string list" where
  "BOLD_TOKENS = [''bold'', ''bd'', ''black'', ''heavy'', ''semibold'', ''demi'', ''mediumbold'']"

definition looks_bold :: "string \<Rightarrow> bool" where
  "looks_bold fontname =
     (if fontname = [] then False
      else let fn = lower fontname in list_ex (\<lambda>tok. contains tok fn) BOLD_TOKENS)"

subsection \<open>The line grouper\<close>

fun fabs :: "pyfloat \<Rightarrow> pyfloat" where
  "fabs NaN = NaN"
| "fabs NInf = PInf"
| "fabs PInf = PInf"
| "fabs (Fin a) = Fin \<bar>a\<bar>"

text \<open>\<open>round(x, 3)\<close>: the value rounded to three decimals, half to even on the exact
  value, and converted back to a float.\<close>

definition round3 :: "pyfloat \<Rightarrow> pyfloat" where
  "round3 x =
     (case x of
        Fin q \<Rightarrow> round_b64 (of_int (round_half_even (q * 1000)) / 1000)
      | _ \<Rightarrow> x)"

definition get_top :: "glyph \<Rightarrow> pyfloat" where
  "get_top c = (case ch_top c of Some t \<Rightarrow> t | None \<Rightarrow> Fin 0)"

definition get_x0 :: "glyph \<Rightarrow> pyfloat" where
  "get_x0 c = (case ch_x0 c of Some x \<Rightarrow> x | None \<Rightarrow> Fin 0)"

text \<open>The two sort keys of the grouper: \<open>(round(top, 3), x0)\<close> and \<open>x0\<close>.\<close>

definition top_x0_key :: "glyph \<Rightarrow> sortkey" where
  "top_x0_key c = PairKey (round3 (get_top c)) (get_x0 c)"

definition x0_key :: "glyph \<Rightarrow> sortkey" where
  "x0_key c = FloatKey (get_x0 c)"

record grouper =
  lines :: "glyph list list"
  current_line :: "glyph list"
  current_top :: "pyfloat option"

definition group_step :: "sorter \<Rightarrow> pyfloat \<Rightarrow> grouper \<Rightarrow> glyph \<Rightarrow> grouper" where
  "group_step srt line_tol s ch =
     (let ch_top = get_top ch
      in case current_top s of
           Some ct \<Rightarrow>
             if current_line s \<noteq> [] then
               (if fless line_tol (fabs (fsub ch_top ct))
                then \<lparr>lines = lines s @ [py_sorted srt x0_key (current_line s)],
                      current_line = [ch], current_top = Some ch_top\<rparr>
                else s\<lparr>current_line := current_line s @ [ch]\<rparr>)
             else s\<lparr>current_line := [ch], current_top := Some ch_top\<rparr>
         | None \<Rightarrow> s\<lparr>current_line := [ch], current_top := Some ch_top\<rparr>)"

definition group_chars_into_lines :: "sorter \<Rightarrow> glyph list \<Rightarrow> pyfloat \<Rightarrow> glyph list list" where
  "group_chars_into_lines srt chars line_tol =
     (if chars = [] then []
      else let chars_sorted = py_sorted srt top_x0_key chars;
               s = foldl (group_step srt line_tol)
                     \<lparr>lines = [], current_line = [], current_top = None\<rparr> chars_sorted
           in if current_line s \<noteq> [] then lines s @ [py_sorted srt x0_key (current_line s)]
              else lines s)"

subsection \<open>The line reconstructor\<close>

text \<open>
  The list \<open>out\<close> of the reconstructor holds four kinds of pieces: a space, the two
  markers, and glyph text. \<open>piece_str\<close> gives the string each one stands for, and the
  function returns their concatenation.
\<close>

datatype piece = Space | BoldOpen | BoldClose | Txt string

fun piece_str :: "piece \<Rightarrow> string" where
  "piece_str Space = '' ''"
| "piece_str BoldOpen = ''<bold>''"
| "piece_str BoldClose = ''</bold>''"
| "piece_str (Txt t) = t"

record rstate =
  out :: "piece list"
  in_bold :: bool
  prev_x1 :: "pyfloat option"
  prev_w :: "pyfloat option"

definition glyph_width :: "glyph \<Rightarrow> pyfloat option" where
  "glyph_width ch =
     (case (ch_x0 ch, ch_x1 ch) of
        (Some a, Some b) \<Rightarrow> Some (pymax (Fin 0) (fsub b a))
      | _ \<Rightarrow> None)"

text \<open>The space heuristic of one iteration: the pieces it appends.\<close>

definition space_pieces :: "pyfloat \<Rightarrow> rstate \<Rightarrow> glyph \<Rightarrow> piece list" where
  "space_pieces gap_ratio s ch =
     (case (prev_x1 s, ch_x0 ch) of
        (Some p, Some a) \<Rightarrow>
          (let avg_char_w =
                 (case prev_w s of
                    Some pw \<Rightarrow> if fless (Fin 0) pw then pw else Fin 3
                  | None \<Rightarrow> Fin 3)
           in if fless (fmul gap_ratio avg_char_w) (fsub a p) then [Space] else [])
      | _ \<Rightarrow> [])"

definition reconstruct_step :: "pyfloat \<Rightarrow> rstate \<Rightarrow> glyph \<Rightarrow> rstate" where
  "reconstruct_step gap_ratio s ch =
     (if ch_text ch = [] then s
      else let w = glyph_width ch;
               sp = space_pieces gap_ratio s ch;
               is_bold = looks_bold (ch_fontname ch);
               mk = (if is_bold \<and> \<not> in_bold s then [BoldOpen]
                     else if \<not> is_bold \<and> in_bold s then [BoldClose] else []);
               b = (if is_bold \<and> \<not> in_bold s then True
                    else if \<not> is_bold \<and> in_bold s then False else in_bold s)
           in \<lparr>out = out s @ sp @ mk @ [Txt (ch_text ch)], in_bold = b,
               prev_x1 = ch_x1 ch, prev_w = w\<rparr>)"

definition rstate0 :: rstate where
  "rstate0 = \<lparr>out = [], in_bold = False, prev_x1 = None, prev_w = None\<rparr>"

text \<open>The list \<open>out\<close> when the function returns.\<close>

definition reconstruct_pieces :: "glyph list \<Rightarrow> pyfloat \<Rightarrow> piece list" where
  "reconstruct_pieces line_chars gap_ratio =
     (if line_chars = [] then []
      else let s = foldl (reconstruct_step gap_ratio) rstate0 line_chars
           in if in_bold s then out s @ [BoldClose] else out s)"

definition reconstruct_line_with_bold :: "glyph list \<Rightarrow> pyfloat \<Rightarrow> string" where
  "reconstruct_line_with_bold line_chars gap_ratio =
     concat (map piece_str (reconstruct_pieces line_chars gap_ratio))"

subsection \<open>Column and page extraction\<close>

text \<open>
  A page as the PDF library presents it: its size, and the glyphs it returns for a
  bounding box \<open>(x0, top, x1, bottom)\<close> (\<open>page.crop(bbox).chars\<close>).
\<close>

type_synonym bbox = "pyfloat \<times> pyfloat \<times> pyfloat \<times> pyfloat"

record page =
  page_width :: pyfloat
  page_height :: pyfloat
  crop_chars :: "bbox \<Rightarrow> glyph list"

definition extract_text_with_bold :: "sorter \<Rightarrow> page \<Rightarrow> bbox \<Rightarrow> pyfloat \<Rightarrow> string" where
  "extract_text_with_bold srt pg bb line_tol =
     (let chars = crop_chars pg bb;
          lns = group_chars_into_lines srt chars line_tol;
          s_lines = map (\<lambda>line_chars. reconstruct_line_with_bold line_chars (Fin (1 / 2))) lns
      in clean_lines (join [CHR 0x0A] s_lines))"

text \<open>The body of the loop over the column boxes: the texts it appends to \<open>col_texts\<close>.\<close>

definition column_text ::
  "sorter \<Rightarrow> page \<Rightarrow> pyfloat \<Rightarrow> pyfloat \<Rightarrow> pyfloat \<Rightarrow> box \<Rightarrow> string list" where
  "column_text srt pg y0 y1 y_tolerance b =
     (let W = page_width pg;
          xx0 = pymax (Fin 0) (pymin W (fst b));
          xx1 = pymax (Fin 0) (pymin W (snd b))
      in if fle xx1 xx0 then []
         else let t = extract_text_with_bold srt pg (xx0, y0, xx1, y1)
                        (pymax (Fin 1) y_tolerance)
              in if t \<noteq> [] then [clean_lines t] else [])"

definition extract_page_columns ::
  "sorter \<Rightarrow> page \<Rightarrow> box list \<Rightarrow> pyfloat \<Rightarrow> pyfloat \<Rightarrow> pyfloat \<Rightarrow> pyfloat \<Rightarrow> string" where
  "extract_page_columns srt pg col_boxes header_ratio footer_ratio x_tolerance y_tolerance =
     (let H = page_height pg;
          y0 = fmul H header_ratio;
          y1 = fmul H (fsub (Fin 1) footer_ratio);
          inverted = fle y1 y0;
          y0' = (if inverted then Fin 0 else y0);
          y1' = (if inverted then H else y1);
          col_texts = concat (map (column_text srt pg y0' y1' y_tolerance) col_boxes)
      in join [CHR 0x0A, CHR 0x0A] (filter (\<lambda>t. t \<noteq> []) col_texts))"

subsection \<open>The document assembler\<close>

record options =
  start_page :: int
  end_page :: "int option"
  default_cols :: int
  header_ratio :: pyfloat
  footer_ratio :: pyfloat
  x_tolerance :: pyfloat
  y_tolerance :: pyfloat
  odd_cols_spec :: "string option"
  even_cols_spec :: "string option"

text \<open>Truth value of an optional string: neither \<open>None\<close> nor empty.\<close>

definition truthy :: "string option \<Rightarrow> bool" where
  "truthy s = (case s of Some t \<Rightarrow> t \<noteq> [] | None \<Rightarrow> False)"

definition page_boxes :: "sorter \<Rightarrow> options \<Rightarrow> int \<Rightarrow> pyfloat \<Rightarrow> pyerror + box list" where
  "page_boxes srt opts page_num W =
     (if page_num mod 2 = 1 \<and> truthy (odd_cols_spec opts)
        then parse_cols_spec srt (the (odd_cols_spec opts)) W
      else if page_num mod 2 = 0 \<and> truthy (even_cols_spec opts)
        then parse_cols_spec srt (the (even_cols_spec opts)) W
      else equal_columns W (default_cols opts))"

text \<open>The loop over \<open>range(sp - 1, ep)\<close>; \<open>pdf.pages[idx0]\<close> raises \<open>IndexError\<close> when the
  index is not below the page count.\<close>

fun pages_loop ::
  "sorter \<Rightarrow> options \<Rightarrow> page list \<Rightarrow> int list \<Rightarrow> string list \<Rightarrow> pyerror + string list" where
  "pages_loop srt opts pages [] all_text = Inr all_text"
| "pages_loop srt opts pages (idx0 # rest) all_text =
     (if \<not> (0 \<le> idx0 \<and> idx0 < int (length pages)) then Inl IndexError
      else let pg = pages ! nat idx0;
               page_num = idx0 + 1
           in case page_boxes srt opts page_num (page_width pg) of
                Inl e \<Rightarrow> Inl e
              | Inr col_boxes \<Rightarrow>
                  (let page_text = extract_page_columns srt pg col_boxes (header_ratio opts)
                                     (footer_ratio opts) (x_tolerance opts) (y_tolerance opts)
                   in pages_loop srt opts pages rest
                        (if page_text \<noteq> [] then all_text @ [page_text] else all_text)))"

definition range_from :: "int \<Rightarrow> int \<Rightarrow> int list" where
  "range_from a b = map (\<lambda>k. a + int k) [0 ..< nat (b - a)]"

text \<open>
  \<open>pdf_to_txt_parity_boxes\<close>: the document is \<open>None\<close> when the path does not exist; the
  result is the text written to the output file.
\<close>

definition pdf_to_txt_parity_boxes ::
  "sorter \<Rightarrow> page list option \<Rightarrow> options \<Rightarrow> pyerror + string" where
  "pdf_to_txt_parity_boxes srt pdf opts =
     (case pdf of
        None \<Rightarrow> Inl FileNotFoundError
      | Some pages \<Rightarrow>
          (let total = int (length pages);
               sp = max 1 (start_page opts);
               ep0 = (case end_page opts of Some e \<Rightarrow> e | None \<Rightarrow> total);
               ep = max sp (min ep0 total)
           in case pages_loop srt opts pages (range_from (sp - 1) ep) [] of
                Inl e \<Rightarrow> Inl e
              | Inr all_text \<Rightarrow> Inr (join [CHR 0x0A, CHR 0x0A] all_text)))"

section \<open>Properties: vocabulary\<close>

subsection \<open>Floats\<close>

text \<open>The exponent \<open>round_mag\<close> rounds at, and \<open>float(i)\<close> as a value.\<close>

definition fexp :: "rat \<Rightarrow> int" where
  "fexp a = max (floor_log2 a) (- 1022)"

definition b64_of_int :: "int \<Rightarrow> pyfloat" where
  "b64_of_int i = round_b64 (of_int i)"

subsection \<open>Equal columns\<close>

text \<open>Box \<open>i\<close> of the equal columns, as the loop computes it from the step.\<close>

definition column_box :: "pyfloat \<Rightarrow> int \<Rightarrow> box" where
  "column_box step i = (fmul (b64_of_int i) step, fmul (b64_of_int (i + 1)) step)"

text \<open>
  The accuracy of a box coordinate: the unit roundoff \<open>2^-53\<close>, half the smallest
  positive float \<open>2^-1075\<close>, and the bound on the distance between coordinate \<open>i\<close> and
  the exact \<open>i * W / N\<close>.
\<close>

definition unit_roundoff :: rat where
  "unit_roundoff = pow2 (- 53)"

definition tiny :: rat where
  "tiny = pow2 (- 1075)"

definition coord_error :: "rat \<Rightarrow> int \<Rightarrow> int \<Rightarrow> rat" where
  "coord_error w n i =
     3 * unit_roundoff * (of_int i * (w / of_int n)) + (2 * of_int i + 1) * tiny"

text \<open>
  The claim about equal columns in the specification's words: \<open>N\<close> boxes, each of width
  exactly \<open>W / N\<close>, each ending where the next starts, the first starting at 0 and the
  last ending at \<open>W\<close>.
\<close>

fun contiguous :: "box list \<Rightarrow> bool" where
  "contiguous (b # c # bs) = (snd b = fst c \<and> contiguous (c # bs))"
| "contiguous _ = True"

definition box_width :: "box \<Rightarrow> rat option" where
  "box_width b = (case b of (Fin a, Fin c) \<Rightarrow> Some (c - a) | _ \<Rightarrow> None)"

definition covers_exactly :: "rat \<Rightarrow> int \<Rightarrow> box list \<Rightarrow> bool" where
  "covers_exactly W N bs =
     (length bs = nat N \<and> list_all (\<lambda>b. box_width b = Some (W / of_int N)) bs \<and>
      contiguous bs \<and> bs \<noteq> [] \<and> fst (hd bs) = Fin 0 \<and> snd (last bs) = Fin W)"

definition equal_columns_exact :: "rat \<Rightarrow> int \<Rightarrow> bool" where
  "equal_columns_exact W N =
     (case equal_columns (Fin W) N of Inr bs \<Rightarrow> covers_exactly W N bs | Inl e \<Rightarrow> False)"

subsection \<open>Line reconstructor\<close>

definition has_text :: "glyph \<Rightarrow> bool" where
  "has_text g = (ch_text g \<noteq> [])"

definition is_marker :: "piece \<Rightarrow> bool" where
  "is_marker p = (p = BoldOpen \<or> p = BoldClose)"

text \<open>The markers emitted, in order, and the rest of the output.\<close>

definition markers :: "piece list \<Rightarrow> piece list" where
  "markers ps = filter is_marker ps"

definition texts_and_spaces :: "piece list \<Rightarrow> piece list" where
  "texts_and_spaces ps = filter (\<lambda>p. \<not> is_marker p) ps"

text \<open>Balanced, unnested markup: the markers read open, close, open, close, ...,
  ending on a close.\<close>

fun alternating :: "piece list \<Rightarrow> bool" where
  "alternating [] = True"
| "alternating (BoldOpen # BoldClose # ps) = alternating ps"
| "alternating _ = False"

text \<open>The markers found by reading the output string from left to right.\<close>

fun scan_markers :: "string \<Rightarrow> piece list" where
  "scan_markers [] = []"
| "scan_markers (c # cs) =
     (if starts_with ''<bold>'' (c # cs) then BoldOpen # scan_markers cs
      else if starts_with ''</bold>'' (c # cs) then BoldClose # scan_markers cs
      else scan_markers cs)"

text \<open>
  The spacing rule in the specification's words. The reference width is the previous
  glyph's width \<open>x1 - x0\<close>, or 3.0 when that width is unknown or not positive; a space
  is wanted when the gap from the previous glyph's right edge to the current glyph's left
  edge exceeds \<open>gap_ratio\<close> times the reference width. \<open>spaced\<close> lays the texts of the
  glyphs out with one space exactly where one is wanted.
\<close>

definition reference_width :: "glyph \<Rightarrow> pyfloat" where
  "reference_width g =
     (case (ch_x0 g, ch_x1 g) of
        (Some a, Some b) \<Rightarrow> if fless (Fin 0) (fsub b a) then fsub b a else Fin 3
      | _ \<Rightarrow> Fin 3)"

definition wants_space :: "pyfloat \<Rightarrow> glyph \<Rightarrow> glyph \<Rightarrow> bool" where
  "wants_space gap_ratio g h =
     (case (ch_x1 g, ch_x0 h) of
        (Some p, Some a) \<Rightarrow> fless (fmul gap_ratio (reference_width g)) (fsub a p)
      | _ \<Rightarrow> False)"

fun spaced :: "pyfloat \<Rightarrow> glyph list \<Rightarrow> piece list" where
  "spaced gap_ratio [] = []"
| "spaced gap_ratio [g] = [Txt (ch_text g)]"
| "spaced gap_ratio (g # h # gs) =
     Txt (ch_text g) # (if wants_space gap_ratio g h then [Space] else [])
       @ spaced gap_ratio (h # gs)"

text \<open>
  The returned string in the specification's words. Going through the glyphs that have
  text: a space if one is wanted after the previous glyph, then a marker if the glyph's
  boldness differs from the flag, then the glyph's text; at the end the closing marker
  if the flag is set.
\<close>

definition marker_str :: "bool \<Rightarrow> bool \<Rightarrow> string" where
  "marker_str flag is_bold =
     (if is_bold \<and> \<not> flag then ''<bold>'' else if \<not> is_bold \<and> flag then ''</bold>'' else [])"

definition space_str :: "pyfloat \<Rightarrow> glyph option \<Rightarrow> glyph \<Rightarrow> string" where
  "space_str gap_ratio prev g =
     (case prev of None \<Rightarrow> [] | Some p \<Rightarrow> if wants_space gap_ratio p g then '' '' else [])"

fun line_string :: "pyfloat \<Rightarrow> glyph option \<Rightarrow> bool \<Rightarrow> glyph list \<Rightarrow> string" where
  "line_string gap_ratio prev flag [] = (if flag then ''</bold>'' else [])"
| "line_string gap_ratio prev flag (g # gs) =
     space_str gap_ratio prev g @ marker_str flag (looks_bold (ch_fontname g)) @ ch_text g
       @ line_string gap_ratio (Some g) (looks_bold (ch_fontname g)) gs"

text \<open>The loop state tracks the gap from a given previous glyph.\<close>

definition tracks :: "glyph option \<Rightarrow> rstate \<Rightarrow> bool" where
  "tracks prev s =
     (case prev of
        None \<Rightarrow> prev_x1 s = None
      | Some p \<Rightarrow> prev_x1 s = ch_x1 p \<and> prev_w s = glyph_width p)"

definition render :: "piece list \<Rightarrow> string" where
  "render ps = concat (map piece_str ps)"

text \<open>Loop invariants of the reconstructor: the markers so far alternate, with one
  close owed while the flag is set; the texts and spaces so far follow \<open>spaced\<close> and the
  gap is tracked from the last glyph that had text.\<close>

definition bold_inv :: "rstate \<Rightarrow> bool" where
  "bold_inv s = alternating (markers (out s) @ (if in_bold s then [BoldClose] else []))"

definition gap_inv :: "pyfloat \<Rightarrow> glyph list \<Rightarrow> rstate \<Rightarrow> bool" where
  "gap_inv gr gs s =
     (texts_and_spaces (out s) = spaced gr gs \<and>
      (if gs = [] then prev_x1 s = None
       else prev_x1 s = ch_x1 (last gs) \<and> prev_w s = glyph_width (last gs)))"

text \<open>Example glyphs: \<open>A\<close> bold, \<open>B\<close> regular after a gap, an empty glyph far to the
  right, \<open>C\<close> bold and adjacent.\<close>

definition mk_glyph :: "string \<Rightarrow> rat \<Rightarrow> rat \<Rightarrow> string \<Rightarrow> glyph" where
  "mk_glyph t a b f =
     \<lparr>ch_text = t, ch_x0 = Some (Fin a), ch_x1 = Some (Fin b), ch_top = Some (Fin 0),
      ch_fontname = f\<rparr>"

definition example_line :: "glyph list" where
  "example_line =
     [mk_glyph ''A'' 0 5 ''Arial-Bold'', mk_glyph ''B'' 12 14 ''Arial'',
      mk_glyph [] 100 115 ''Arial-Bold'', mk_glyph ''C'' 14 19 ''Arial-Bold'']"

subsection \<open>Column specs\<close>

text \<open>The tokens of a spec: its comma-separated parts that are not blank.\<close>

definition spec_tokens :: "string \<Rightarrow> string list" where
  "spec_tokens spec = filter (\<lambda>p. strip p \<noteq> []) (split_on CHR '','' spec)"

text \<open>A token obeys the colon rule when it holds exactly one colon.\<close>

definition colon_rule :: "string \<Rightarrow> bool" where
  "colon_rule p = (length (filter (\<lambda>c. c = CHR '':'') p) = 1)"

text \<open>A token that the loop body turns into a box.\<close>

definition box_ok :: "string \<Rightarrow> pyfloat \<Rightarrow> bool" where
  "box_ok p width = (\<not> isl (parse_box p width))"

text \<open>Boxes in strictly increasing order of \<open>x0\<close>; boxes of which each ends before every
  later one starts; adjacent boxes that pass the overlap test of the code; boxes without a
  NaN coordinate.\<close>

definition x0_sorted :: "box list \<Rightarrow> bool" where
  "x0_sorted bs = sorted_wrt (\<lambda>b c. fless (fst b) (fst c)) bs"

definition non_overlapping :: "box list \<Rightarrow> bool" where
  "non_overlapping bs = sorted_wrt (\<lambda>b c. fle (snd b) (fst c)) bs"

definition no_adjacent_overlap :: "box list \<Rightarrow> bool" where
  "no_adjacent_overlap bs = successively (\<lambda>b c. \<not> fless (fst c) (snd b)) bs"

definition nan_free :: "box list \<Rightarrow> bool" where
  "nan_free bs = list_all (\<lambda>b. fst b \<noteq> NaN \<and> snd b \<noteq> NaN) bs"

subsection \<open>Column extraction\<close>

text \<open>Column extraction with the line grouper's tolerance given directly: the body of
  \<open>extract_page_columns\<close> with \<open>tol\<close> handed to \<open>extract_text_with_bold\<close> as it is.\<close>

definition column_text_at ::
  "sorter \<Rightarrow> page \<Rightarrow> pyfloat \<Rightarrow> pyfloat \<Rightarrow> pyfloat \<Rightarrow> box \<Rightarrow> string list" where
  "column_text_at srt pg y0 y1 tol b =
     (let W = page_width pg;
          xx0 = pymax (Fin 0) (pymin W (fst b));
          xx1 = pymax (Fin 0) (pymin W (snd b))
      in if fle xx1 xx0 then []
         else let t = extract_text_with_bold srt pg (xx0, y0, xx1, y1) tol
              in if t \<noteq> [] then [clean_lines t] else [])"

definition columns_at_tolerance ::
  "sorter \<Rightarrow> page \<Rightarrow> box list \<Rightarrow> pyfloat \<Rightarrow> pyfloat \<Rightarrow> pyfloat \<Rightarrow> string" where
  "columns_at_tolerance srt pg col_boxes hr fr tol =
     (let H = page_height pg;
          y0 = fmul H hr;
          y1 = fmul H (fsub (Fin 1) fr);
          inverted = fle y1 y0;
          y0' = (if inverted then Fin 0 else y0);
          y1' = (if inverted then H else y1);
          col_texts = concat (map (column_text_at srt pg y0' y1' tol) col_boxes)
      in join [CHR 0x0A, CHR 0x0A] (filter (\<lambda>t. t \<noteq> []) col_texts))"

text \<open>A line whose second glyph carries the text \<open><bold>\<close> in a regular font, and a
  line of two glyphs whose gap equals the threshold.\<close>

definition marker_text_line :: "glyph list" where
  "marker_text_line =
     [mk_glyph ''x'' 0 5 ''Arial'', mk_glyph ''<bold>'' 5 10 ''Arial'',
      mk_glyph ''y'' 10 15 ''Arial-Bold'']"

definition threshold_line :: "glyph list" where
  "threshold_line = [mk_glyph ''P'' 0 4 ''Arial'', mk_glyph ''Q'' 8 10 ''Arial'']"

subsection \<open>Pages and documents\<close>

text \<open>An example page with two glyphs, \<open>a\<close> at the top and \<open>b\<close> three quarters of a
  unit lower, an empty page, and the default options with start page 5.\<close>

definition plain_glyph :: "string \<Rightarrow> rat \<Rightarrow> glyph" where
  "plain_glyph t y =
     \<lparr>ch_text = t, ch_x0 = None, ch_x1 = None, ch_top = Some (Fin y), ch_fontname = []\<rparr>"

definition example_page :: page where
  "example_page =
     \<lparr>page_width = Fin 600, page_height = Fin 800,
      crop_chars = (\<lambda>bb. [plain_glyph ''a'' 0, plain_glyph ''b'' (3 / 4)])\<rparr>"

definition empty_page :: page where
  "empty_page = \<lparr>page_width = Fin 600, page_height = Fin 800, crop_chars = (\<lambda>bb. [])\<rparr>"

definition example_opts :: options where
  "example_opts =
     \<lparr>start_page = 5, end_page = None, default_cols = 3, header_ratio = Fin 0,
      footer_ratio = Fin 0, x_tolerance = Fin 1, y_tolerance = Fin 2,
      odd_cols_spec = None, even_cols_spec = None\<rparr>"

section \<open>The float model: rounding is monotone and exact on float values\<close>

lemma pow2_powi: "pow2 e = 2 powi e"
  by (simp add: pow2_def power_int_def power_one_over inverse_eq_divide)

lemma pow2_pos [simp]: "0 < pow2 e"
  by (simp add: pow2_powi)

lemma pow2_add: "pow2 (a + b) = pow2 a * pow2 b"
  by (simp add: pow2_powi power_int_add)

lemma pow2_minus: "pow2 (- e) = 1 / pow2 e"
  by (simp add: pow2_powi power_int_minus_divide)

lemma pow2_mono: "a \<le> b \<Longrightarrow> pow2 a \<le> pow2 b"
  by (simp add: pow2_powi power_int_increasing)

lemma pow2_strict_mono: "a < b \<Longrightarrow> pow2 a < pow2 b"
  by (simp add: pow2_powi power_int_strict_increasing)

lemma pow2_nat: "0 \<le> e \<Longrightarrow> pow2 e = of_int (2 ^ nat e)"
  by (simp add: pow2_def)

lemma pow2_0 [simp]: "pow2 0 = 1"
  by (simp add: pow2_def)

lemma bitlen_ge1: "0 < n \<Longrightarrow> 1 \<le> bitlen n"
proof (rule ccontr)
  assume n: "0 < n" and "\<not> 1 \<le> bitlen n"
  then have "nat (bitlen n) = 0" by simp
  with bitlen_bounds [OF n] show False by auto
qed

lemma floor_log2_ge1:
  assumes "1 \<le> q"
  shows "pow2 (floor_log2 q) \<le> q \<and> q < pow2 (floor_log2 q + 1)"
proof -
  define n where "n = \<lfloor>q\<rfloor>"
  have n1: "1 \<le> n" using assms by (simp add: n_def le_floor_iff)
  then have n0: "0 < n" by simp
  have b: "2 ^ nat (bitlen n - 1) \<le> n" "n < 2 ^ nat (bitlen n)"
    using bitlen_bounds [OF n0] by simp_all
  have bl: "1 \<le> bitlen n" using n0 by (rule bitlen_ge1)
  have fl: "floor_log2 q = bitlen n - 1"
    using assms by (simp add: floor_log2_def n_def)
  have "pow2 (bitlen n - 1) = of_int (2 ^ nat (bitlen n - 1))"
    using bl by (simp add: pow2_nat)
  also have "\<dots> \<le> of_int n" using b(1) by (simp only: of_int_le_iff)
  also have "\<dots> \<le> q" by (simp add: n_def)
  finally have lo: "pow2 (floor_log2 q) \<le> q" by (simp add: fl)
  have n2: "n + 1 \<le> 2 ^ nat (bitlen n)" using b(2) by simp
  have "q < of_int (n + 1)" using floor_correct [of q] by (simp add: n_def)
  also have "\<dots> \<le> of_int (2 ^ nat (bitlen n))"
    using n2 by (simp only: of_int_le_iff)
  also have "\<dots> = pow2 (bitlen n)" using bl by (simp add: pow2_nat)
  finally have "q < pow2 (floor_log2 q + 1)" by (simp add: fl)
  with lo show ?thesis by simp
qed

lemma floor_log2_lt1:
  assumes "0 < q" "q < 1"
  shows "pow2 (floor_log2 q) \<le> q \<and> q < pow2 (floor_log2 q + 1)"
proof -
  define c where "c = \<lceil>1 / q\<rceil>"
  define k where "k = bitlen (c - 1)"
  have x1: "1 < 1 / q" using assms by (simp add: field_simps)
  have cc: "of_int c - 1 < 1 / q" "1 / q \<le> of_int c"
    using ceiling_correct [of "1 / q"] by (simp_all add: c_def)
  have "(1::rat) < of_int c" using x1 cc(2) by linarith
  then have c2: "2 \<le> c" by simp
  then have c0: "0 < c - 1" by simp
  have b: "2 ^ nat (k - 1) \<le> c - 1" "c - 1 < 2 ^ nat k"
    using bitlen_bounds [OF c0] by (simp_all add: k_def)
  have k1: "1 \<le> k" unfolding k_def using c0 by (rule bitlen_ge1)
  have fl: "floor_log2 q = - k"
    using assms by (simp add: floor_log2_def c_def k_def)
  have c3: "c \<le> 2 ^ nat k" using b(2) by simp
  have "1 / q \<le> of_int c" by (rule cc(2))
  also have "\<dots> \<le> of_int (2 ^ nat k)"
    using c3 by (simp only: of_int_le_iff)
  also have "\<dots> = pow2 k" using k1 by (simp add: pow2_nat)
  finally have "1 / q \<le> pow2 k" .
  then have "1 / pow2 k \<le> q" using assms(1) pow2_pos [of k] by (simp add: field_simps)
  then have lo: "pow2 (- k) \<le> q" by (simp add: pow2_minus)
  have "pow2 (k - 1) = of_int (2 ^ nat (k - 1))" using k1 by (simp add: pow2_nat)
  also have "\<dots> \<le> of_int (c - 1)" using b(1) by (simp only: of_int_le_iff)
  also have "\<dots> < 1 / q" using cc(1) by simp
  finally have "pow2 (k - 1) < 1 / q" .
  then have "q < 1 / pow2 (k - 1)" using assms(1) pow2_pos [of "k - 1"] by (simp add: field_simps)
  moreover have "pow2 (- k + 1) = 1 / pow2 (k - 1)"
    using pow2_minus [of "k - 1"] by simp
  ultimately have "q < pow2 (- k + 1)" by simp
  with lo show ?thesis by (simp add: fl)
qed

lemma floor_log2_bounds:
  "0 < q \<Longrightarrow> pow2 (floor_log2 q) \<le> q \<and> q < pow2 (floor_log2 q + 1)"
  using floor_log2_ge1 [of q] floor_log2_lt1 [of q] by (cases "1 \<le> q") auto

lemma floor_log2_unique:
  assumes "0 < q" "pow2 e \<le> q" "q < pow2 (e + 1)"
  shows "floor_log2 q = e"
proof (rule ccontr)
  assume ne: "floor_log2 q \<noteq> e"
  note b = floor_log2_bounds [OF assms(1)]
  show False
  proof (cases "floor_log2 q < e")
    case True
    then have "pow2 (floor_log2 q + 1) \<le> pow2 e" by (simp add: pow2_mono)
    with b assms(2) show False by linarith
  next
    case False
    with ne have "e + 1 \<le> floor_log2 q" by simp
    then have "pow2 (e + 1) \<le> pow2 (floor_log2 q)" by (rule pow2_mono)
    with b assms(3) show False by linarith
  qed
qed

lemma floor_log2_mono:
  assumes "0 < a" "a \<le> b"
  shows "floor_log2 a \<le> floor_log2 b"
proof (rule ccontr)
  assume "\<not> floor_log2 a \<le> floor_log2 b"
  then have "floor_log2 b + 1 \<le> floor_log2 a" by simp
  then have "pow2 (floor_log2 b + 1) \<le> pow2 (floor_log2 a)" by (rule pow2_mono)
  moreover have "0 < b" using assms by simp
  ultimately show False
    using floor_log2_bounds [OF assms(1)] floor_log2_bounds [of b] assms(2) by linarith
qed

lemma pow2_nonneg [simp]: "0 \<le> pow2 e"
  using pow2_pos [of e] by linarith

lemma pow2_neq0 [simp]: "pow2 e \<noteq> 0"
  using pow2_pos [of e] by linarith

lemma pow2_div_mono: "a \<le> b \<Longrightarrow> a / pow2 e \<le> b / pow2 e"
  by (rule divide_right_mono) simp_all

lemma pow2_mult_mono: "a \<le> b \<Longrightarrow> a * pow2 e \<le> b * pow2 e"
  by (rule mult_right_mono) simp_all

lemma rhe_of_int [simp]: "round_half_even (of_int n) = n"
  by (simp add: round_half_even_def)

lemma rhe_range: "\<lfloor>q\<rfloor> \<le> round_half_even q \<and> round_half_even q \<le> \<lfloor>q\<rfloor> + 1"
  by (simp add: round_half_even_def Let_def)

lemma rhe_mono:
  assumes "a \<le> b"
  shows "round_half_even a \<le> round_half_even b"
proof (cases "\<lfloor>a\<rfloor> < \<lfloor>b\<rfloor>")
  case True
  then show ?thesis using rhe_range [of a] rhe_range [of b] by linarith
next
  case False
  moreover have "\<lfloor>a\<rfloor> \<le> \<lfloor>b\<rfloor>" using assms by (rule floor_mono)
  ultimately have eq: "\<lfloor>a\<rfloor> = \<lfloor>b\<rfloor>" by simp
  then have "a - of_int \<lfloor>a\<rfloor> \<le> b - of_int \<lfloor>b\<rfloor>" using assms by simp
  then show ?thesis
    unfolding round_half_even_def Let_def eq by auto
qed

lemma rhe_le_int: "q \<le> of_int K \<Longrightarrow> round_half_even q \<le> K"
  using rhe_mono [of q "of_int K"] by simp

lemma int_le_rhe: "of_int K \<le> q \<Longrightarrow> K \<le> round_half_even q"
  using rhe_mono [of "of_int K" q] by simp

lemma round_mag_alt:
  "round_mag a = of_int (round_half_even (a / pow2 (fexp a - 52))) * pow2 (fexp a - 52)"
  by (simp add: round_mag_def fexp_def Let_def)

lemma fexp_mono: "0 < a \<Longrightarrow> a \<le> b \<Longrightarrow> fexp a \<le> fexp b"
  using floor_log2_mono [of a b] by (simp add: fexp_def)

lemma pow2_int: "0 \<le> e \<Longrightarrow> pow2 e = of_int (2 ^ nat e)"
  by (rule pow2_nat)

lemma pow2_diff: "pow2 (a - b) = pow2 a / pow2 b"
proof -
  have "pow2 (a - b) * pow2 b = pow2 a" using pow2_add [of "a - b" b] by simp
  then show ?thesis by (simp add: field_simps)
qed

lemma round_mag_nonneg: "0 < a \<Longrightarrow> 0 \<le> round_mag a"
proof -
  assume "0 < a"
  then have "of_int 0 \<le> a / pow2 (fexp a - 52)" by simp
  then have "0 \<le> round_half_even (a / pow2 (fexp a - 52))" by (rule int_le_rhe)
  then show ?thesis by (simp add: round_mag_alt)
qed

lemma pow2_53_step: "pow2 53 * pow2 (e - 52) = pow2 (e + 1)"
proof -
  have "pow2 53 * pow2 (e - 52) = pow2 (53 + (e - 52))" by (simp only: pow2_add)
  moreover have "53 + (e - 52) = e + 1" by simp
  ultimately show ?thesis by simp
qed

lemma pow2_52_step: "pow2 52 * pow2 (e - 52) = pow2 e"
proof -
  have "pow2 52 * pow2 (e - 52) = pow2 (52 + (e - 52))" by (simp only: pow2_add)
  moreover have "52 + (e - 52) = e" by simp
  ultimately show ?thesis by simp
qed

lemma pow2_53_int: "pow2 53 = of_int (2 ^ 53)"
  by (simp add: pow2_def)

lemma pow2_52_int: "pow2 52 = of_int (2 ^ 52)"
  by (simp add: pow2_def)

lemma round_mag_upper:
  assumes "0 < a"
  shows "round_mag a \<le> pow2 (fexp a + 1)"
proof -
  let ?u = "pow2 (fexp a - 52)"
  have "floor_log2 a \<le> fexp a" by (simp add: fexp_def)
  then have "pow2 (floor_log2 a + 1) \<le> pow2 (fexp a + 1)" by (simp add: pow2_mono)
  with floor_log2_bounds [OF assms] have "a \<le> pow2 (fexp a + 1)" by linarith
  then have "a \<le> pow2 53 * ?u" by (simp only: pow2_53_step)
  then have "a / ?u \<le> pow2 53" by (simp add: field_simps)
  then have "a / ?u \<le> of_int (2 ^ 53)" by (simp only: pow2_53_int)
  then have "round_half_even (a / ?u) \<le> 2 ^ 53" by (rule rhe_le_int)
  then have "(of_int (round_half_even (a / ?u)) :: rat) \<le> of_int (2 ^ 53)"
    by (simp only: of_int_le_iff)
  then have "of_int (round_half_even (a / ?u)) * ?u \<le> of_int (2 ^ 53) * ?u"
    by (rule pow2_mult_mono)
  then have "round_mag a \<le> pow2 53 * ?u" by (simp only: round_mag_alt pow2_53_int)
  then show ?thesis by (simp only: pow2_53_step)
qed

lemma round_mag_lower:
  assumes "0 < a" "- 1022 < floor_log2 a"
  shows "pow2 (fexp a) \<le> round_mag a"
proof -
  let ?u = "pow2 (fexp a - 52)"
  have fe: "fexp a = floor_log2 a" using assms(2) by (simp add: fexp_def)
  with floor_log2_bounds [OF assms(1)] have "pow2 (fexp a) \<le> a" by simp
  then have "pow2 52 * ?u \<le> a" by (simp only: pow2_52_step)
  then have "pow2 52 \<le> a / ?u" by (simp add: field_simps)
  then have "of_int (2 ^ 52) \<le> a / ?u" by (simp only: pow2_52_int)
  then have "2 ^ 52 \<le> round_half_even (a / ?u)" by (rule int_le_rhe)
  then have "(of_int (2 ^ 52) :: rat) \<le> of_int (round_half_even (a / ?u))"
    by (simp only: of_int_le_iff)
  then have "of_int (2 ^ 52) * ?u \<le> of_int (round_half_even (a / ?u)) * ?u"
    by (rule pow2_mult_mono)
  then have "pow2 52 * ?u \<le> round_mag a" by (simp only: round_mag_alt pow2_52_int)
  then show ?thesis by (simp only: pow2_52_step)
qed

lemma round_mag_mono:
  assumes "0 < a" "a \<le> b"
  shows "round_mag a \<le> round_mag b"
proof (cases "fexp a = fexp b")
  case True
  let ?u = "pow2 (fexp b - 52)"
  have "a / ?u \<le> b / ?u" using assms(2) by (rule pow2_div_mono)
  then have "round_half_even (a / ?u) \<le> round_half_even (b / ?u)" by (rule rhe_mono)
  then have "(of_int (round_half_even (a / ?u)) :: rat) \<le> of_int (round_half_even (b / ?u))"
    by (simp only: of_int_le_iff)
  then have "of_int (round_half_even (a / ?u)) * ?u \<le> of_int (round_half_even (b / ?u)) * ?u"
    by (rule pow2_mult_mono)
  then show ?thesis by (simp add: round_mag_alt True)
next
  case False
  have b0: "0 < b" using assms by simp
  from False fexp_mono [OF assms] have lt: "fexp a < fexp b" by simp
  then have "- 1022 < floor_log2 b" by (auto simp: fexp_def max_def split: if_splits)
  then have "pow2 (fexp b) \<le> round_mag b" using b0 by (simp add: round_mag_lower)
  moreover have "pow2 (fexp a + 1) \<le> pow2 (fexp b)" using lt by (simp add: pow2_mono)
  ultimately show ?thesis using round_mag_upper [OF assms(1)] by linarith
qed

lemma round_b64_pos:
  "0 < q \<Longrightarrow> round_b64 q = (if pow2 1024 \<le> round_mag q then PInf else Fin (round_mag q))"
  by (simp add: round_b64_def Let_def)

lemma round_b64_neg:
  "q < 0 \<Longrightarrow> round_b64 q = (if pow2 1024 \<le> round_mag (- q) then NInf else Fin (- round_mag (- q)))"
  by (simp add: round_b64_def Let_def abs_if)

lemma round_b64_zero [simp]: "round_b64 0 = Fin 0"
  by (simp add: round_b64_def)

lemma round_b64_not_nan [simp]: "round_b64 q \<noteq> NaN"
  by (simp add: round_b64_def Let_def)

lemma round_b64_mono:
  assumes "a \<le> b"
  shows "fle (round_b64 a) (round_b64 b)"
proof -
  consider (pp) "0 < a" | (zp) "a = 0" "0 < b" | (zz) "a = 0" "b = 0" | (np) "a < 0" "0 < b"
    | (nz) "a < 0" "b = 0" | (nn) "a < 0" "b < 0"
    using assms by linarith
  then show ?thesis
  proof cases
    case pp
    then have b: "0 < b" using assms by simp
    from round_mag_mono [OF pp assms] show ?thesis
      by (auto simp: round_b64_pos pp b fle_def)
  next
    case zp
    with round_mag_nonneg [of b] show ?thesis
      by (auto simp: round_b64_pos fle_def)
  next
    case zz
    then show ?thesis by (simp add: fle_def)
  next
    case np
    with round_mag_nonneg [of b] round_mag_nonneg [of "- a"] show ?thesis
      by (auto simp: round_b64_pos round_b64_neg fle_def)
  next
    case nz
    with round_mag_nonneg [of "- a"] show ?thesis
      by (auto simp: round_b64_neg fle_def)
  next
    case nn
    then have "0 < - b" "- b \<le> - a" using assms by simp_all
    from round_mag_mono [OF this] nn show ?thesis
      by (auto simp: round_b64_neg fle_def)
  qed
qed

lemma bitlen_le_53:
  assumes "0 < m" "m < 2 ^ 53"
  shows "bitlen m \<le> 53"
proof (rule ccontr)
  assume "\<not> bitlen m \<le> 53"
  then have "53 \<le> nat (bitlen m - 1)" by simp
  then have "(2::int) ^ 53 \<le> 2 ^ nat (bitlen m - 1)"
    by (rule power_increasing) simp
  with bitlen_bounds [OF assms(1)] assms(2) show False by linarith
qed

lemma floor_log2_scaled:
  assumes "0 < m"
  shows "floor_log2 (of_int m * pow2 e) = bitlen m - 1 + e"
proof (rule floor_log2_unique)
  show "0 < of_int m * pow2 e" using assms by simp
  have bl: "1 \<le> bitlen m" using assms by (rule bitlen_ge1)
  note b = bitlen_bounds [OF assms]
  have "pow2 (bitlen m - 1 + e) = pow2 (bitlen m - 1) * pow2 e" by (rule pow2_add)
  also have "pow2 (bitlen m - 1) = of_int (2 ^ nat (bitlen m - 1))"
    using bl by (simp add: pow2_nat)
  also have "of_int (2 ^ nat (bitlen m - 1)) * pow2 e \<le> of_int m * pow2 e"
    using b by (intro pow2_mult_mono) (simp only: of_int_le_iff)
  finally show "pow2 (bitlen m - 1 + e) \<le> of_int m * pow2 e" .
  have "(of_int m :: rat) < of_int (2 ^ nat (bitlen m))"
    using b by (simp only: of_int_less_iff)
  then have "of_int m * pow2 e < of_int (2 ^ nat (bitlen m)) * pow2 e"
    by (simp add: mult_strict_right_mono)
  also have "of_int (2 ^ nat (bitlen m)) = pow2 (bitlen m)"
    using bl by (simp add: pow2_nat)
  also have "pow2 (bitlen m) * pow2 e = pow2 (bitlen m - 1 + e + 1)"
    using pow2_add [of "bitlen m" e] by (simp add: add.commute)
  finally show "of_int m * pow2 e < pow2 (bitlen m - 1 + e + 1)" .
qed

lemma round_mag_exact:
  assumes "0 < m" "m < 2 ^ 53" "- 1074 \<le> e"
  shows "round_mag (of_int m * pow2 e) = of_int m * pow2 e"
proof -
  let ?a = "of_int m * pow2 e :: rat"
  define E where "E = fexp ?a"
  define d where "d = e - (E - 52)"
  have "E = max (bitlen m - 1 + e) (- 1022)"
    by (simp add: E_def fexp_def floor_log2_scaled [OF assms(1)])
  with bitlen_le_53 [OF assms(1,2)] assms(3) have d0: "0 \<le> d"
    by (auto simp: d_def max_def split: if_splits)
  have e: "e = d + (E - 52)" by (simp add: d_def)
  have pe: "pow2 e = pow2 d * pow2 (E - 52)" by (subst e) (rule pow2_add)
  then have "?a / pow2 (E - 52) = of_int m * pow2 d" by simp
  also have "\<dots> = of_int (m * 2 ^ nat d)" using d0 by (simp add: pow2_nat)
  finally have "round_half_even (?a / pow2 (E - 52)) = m * 2 ^ nat d"
    by (simp only: rhe_of_int)
  then have "round_mag ?a = of_int (m * 2 ^ nat d) * pow2 (E - 52)"
    by (simp only: round_mag_alt E_def)
  also have "\<dots> = of_int m * (pow2 d * pow2 (E - 52))" using d0 by (simp add: pow2_nat)
  also have "\<dots> = ?a" by (simp only: pe)
  finally show ?thesis .
qed

lemma round_b64_exact:
  assumes "0 < m" "m < 2 ^ 53" "- 1074 \<le> e" "e \<le> 971"
  shows "round_b64 (of_int m * pow2 e) = Fin (of_int m * pow2 e)"
proof -
  have pos: "(0::rat) < of_int m * pow2 e" using assms(1) by simp
  have "(of_int m :: rat) < of_int (2 ^ 53)" using assms(2) by (simp only: of_int_less_iff)
  then have "of_int m * pow2 e < of_int (2 ^ 53) * pow2 e"
    by (simp add: mult_strict_right_mono)
  also have "of_int (2 ^ 53) = pow2 53" by (simp add: pow2_def)
  also have "pow2 53 * pow2 e = pow2 (53 + e)" by (simp only: pow2_add)
  also have "\<dots> \<le> pow2 1024" using assms(4) by (intro pow2_mono) simp
  finally have "of_int m * pow2 e < pow2 1024" .
  then show ?thesis
    using round_mag_exact [OF assms(1-3)] pos by (simp add: round_b64_pos)
qed

lemma round_b64_minus: "round_b64 (- q) = fneg (round_b64 q)"
  by (cases "q = 0"; cases "0 < q") (auto simp: round_b64_pos round_b64_neg)

lemma round_b64_int:
  assumes "\<bar>n\<bar> < 2 ^ 53"
  shows "round_b64 (of_int n) = Fin (of_int n)"
proof -
  consider "n = 0" | "0 < n" | "n < 0" by linarith
  then show ?thesis
  proof cases
    case 1
    then show ?thesis by simp
  next
    case 2
    with assms round_b64_exact [of n 0] show ?thesis by simp
  next
    case 3
    with assms round_b64_exact [of "- n" 0] have "round_b64 (of_int (- n)) = Fin (of_int (- n))"
      by simp
    then have "fneg (round_b64 (of_int n)) = Fin (- of_int n)"
      using round_b64_minus [of "of_int n"] by simp
    then show ?thesis by (cases "round_b64 (of_int n)") simp_all
  qed
qed

lemma rhe_nearest:
  assumes "\<bar>q - of_int m\<bar> < 1 / 2"
  shows "round_half_even q = m"
proof (cases "of_int m \<le> q")
  case True
  with assms have "\<lfloor>q\<rfloor> = m" by (intro floor_unique) (auto simp: abs_if split: if_splits)
  with True assms show ?thesis by (auto simp: round_half_even_def Let_def abs_if split: if_splits)
next
  case False
  with assms have f: "\<lfloor>q\<rfloor> = m - 1" by (intro floor_unique) (auto simp: abs_if split: if_splits)
  from False assms have "1 / 2 < q - of_int (m - 1)" by (auto simp: abs_if split: if_splits)
  then show ?thesis unfolding round_half_even_def Let_def f by simp
qed

lemma rhe_tie: "round_half_even (of_int m + 1 / 2) = (if even m then m else m + 1)"
proof -
  have "\<lfloor>of_int m + (1 / 2 :: rat)\<rfloor> = m" by (intro floor_unique) simp_all
  then show ?thesis unfolding round_half_even_def Let_def by simp
qed

lemma round_b64_by_exp:
  assumes "0 < a" "pow2 f \<le> a" "a < pow2 (f + 1)"
    and "round_half_even (a / pow2 (max f (- 1022) - 52)) = m"
    and "of_int m * pow2 (max f (- 1022) - 52) < pow2 1024"
  shows "round_b64 a = Fin (of_int m * pow2 (max f (- 1022) - 52))"
proof -
  have "floor_log2 a = f" using assms(1-3) by (rule floor_log2_unique)
  then have "fexp a = max f (- 1022)" by (simp add: fexp_def)
  then have "round_mag a = of_int m * pow2 (max f (- 1022) - 52)"
    using assms(4) by (simp add: round_mag_alt)
  with assms(1,5) show ?thesis by (simp add: round_b64_pos)
qed

lemma round_b64_nearest:
  assumes "0 < a" "pow2 f \<le> a" "a < pow2 (f + 1)"
    and "\<bar>a / pow2 (max f (- 1022) - 52) - of_int m\<bar> < 1 / 2"
    and "of_int m * pow2 (max f (- 1022) - 52) < pow2 1024"
  shows "round_b64 a = Fin (of_int m * pow2 (max f (- 1022) - 52))"
  using assms(1-3) rhe_nearest [OF assms(4)] assms(5) by (rule round_b64_by_exp)

lemma round_b64_numeral:
  "numeral k < (2::int) ^ 53 \<Longrightarrow> round_b64 (numeral k) = Fin (numeral k)"
  using round_b64_int [of "numeral k"] by simp

lemma round_b64_one [simp]: "round_b64 1 = Fin 1"
  using round_b64_int [of 1] by simp

lemma rhe_error: "\<bar>of_int (round_half_even q) - q\<bar> \<le> 1 / 2"
proof -
  have f: "of_int \<lfloor>q\<rfloor> \<le> q" "q < of_int \<lfloor>q\<rfloor> + 1"
    using floor_correct [of q] by simp_all
  define d where "d = q - of_int \<lfloor>q\<rfloor>"
  have d: "0 \<le> d" "d < 1" using f by (simp_all add: d_def)
  have q: "q = of_int \<lfloor>q\<rfloor> + d" by (simp add: d_def)
  consider "d < 1 / 2" | "1 / 2 < d" | "d = 1 / 2" by linarith
  then show ?thesis
  proof cases
    case 1
    then have "round_half_even q = \<lfloor>q\<rfloor>" by (simp add: round_half_even_def d_def)
    then have "of_int (round_half_even q) - q = - d" by (simp add: d_def)
    with 1 d show ?thesis by simp
  next
    case 2
    then have "round_half_even q = \<lfloor>q\<rfloor> + 1" by (simp add: round_half_even_def d_def)
    then have "of_int (round_half_even q) - q = 1 - d" by (simp add: d_def)
    with 2 d show ?thesis by simp
  next
    case 3
    then have "round_half_even q = \<lfloor>q\<rfloor> \<or> round_half_even q = \<lfloor>q\<rfloor> + 1"
      by (simp add: round_half_even_def d_def Let_def)
    then have "of_int (round_half_even q) - q = - d \<or> of_int (round_half_even q) - q = 1 - d"
      by (auto simp: d_def)
    with 3 show ?thesis by auto
  qed
qed

lemma round_mag_error:
  assumes "0 < a"
  shows "\<bar>round_mag a - a\<bar> \<le> pow2 (fexp a - 53)"
proof -
  let ?u = "pow2 (fexp a - 52)"
  have "\<bar>of_int (round_half_even (a / ?u)) - a / ?u\<bar> \<le> 1 / 2" by (rule rhe_error)
  then have "\<bar>of_int (round_half_even (a / ?u)) - a / ?u\<bar> * ?u \<le> 1 / 2 * ?u"
    by (rule pow2_mult_mono)
  moreover have "\<bar>of_int (round_half_even (a / ?u)) - a / ?u\<bar> * ?u
      = \<bar>of_int (round_half_even (a / ?u)) * ?u - a\<bar>"
  proof -
    have "\<bar>of_int (round_half_even (a / ?u)) - a / ?u\<bar> * ?u
        = \<bar>(of_int (round_half_even (a / ?u)) - a / ?u) * ?u\<bar>"
      by (simp add: abs_mult)
    also have "(of_int (round_half_even (a / ?u)) - a / ?u) * ?u
        = of_int (round_half_even (a / ?u)) * ?u - a"
      by (simp add: left_diff_distrib)
    finally show ?thesis .
  qed
  moreover have "1 / 2 * ?u = pow2 (fexp a - 53)"
  proof -
    have "pow2 (fexp a - 53) = pow2 (- 1 + (fexp a - 52))" by simp
    also have "\<dots> = pow2 (- 1) * ?u" by (simp only: pow2_add)
    finally show ?thesis by (simp add: pow2_def)
  qed
  ultimately show ?thesis by (simp add: round_mag_alt)
qed

lemma half_ulp_bound:
  assumes "0 < a"
  shows "pow2 (fexp a - 53) \<le> a * unit_roundoff + tiny"
proof (cases "- 1022 \<le> floor_log2 a")
  case True
  then have "fexp a = floor_log2 a" by (simp add: fexp_def)
  then have "pow2 (fexp a - 53) = pow2 (floor_log2 a) * pow2 (- 53)"
    using pow2_add [of "floor_log2 a" "- 53"] by simp
  also have "\<dots> \<le> a * pow2 (- 53)"
    using floor_log2_bounds [OF assms] by (intro pow2_mult_mono) simp
  finally have "pow2 (fexp a - 53) \<le> a * pow2 (- 53)" .
  with pow2_nonneg [of "- 1075"] show ?thesis
    unfolding unit_roundoff_def tiny_def by linarith
next
  case False
  then have "fexp a = - 1022" by (simp add: fexp_def)
  then have "pow2 (fexp a - 53) = tiny" by (simp add: tiny_def)
  moreover have "0 \<le> a * unit_roundoff" using assms by (simp add: unit_roundoff_def)
  ultimately show ?thesis by simp
qed

lemma round_b64_error:
  assumes "round_b64 q = Fin r"
  shows "\<bar>r - q\<bar> \<le> \<bar>q\<bar> * unit_roundoff + tiny"
proof -
  consider "q = 0" | "0 < q" | "q < 0" by linarith
  then show ?thesis
  proof cases
    case 1
    with assms show ?thesis using pow2_nonneg [of "- 1075"] by (simp add: tiny_def)
  next
    case 2
    with assms have "r = round_mag q" by (simp add: round_b64_pos split: if_splits)
    with round_mag_error [OF 2] half_ulp_bound [OF 2] 2 show ?thesis by simp
  next
    case 3
    then have p: "0 < - q" by simp
    from 3 assms have "r = - round_mag (- q)" by (simp add: round_b64_neg split: if_splits)
    then have "\<bar>r - q\<bar> = \<bar>round_mag (- q) - (- q)\<bar>" by (simp add: abs_minus_commute)
    with round_mag_error [OF p] half_ulp_bound [OF p] 3 show ?thesis by simp
  qed
qed

section \<open>Equal columns\<close>

lemma fle_Fin [simp]: "fle (Fin a) (Fin b) \<longleftrightarrow> a \<le> b"
  by (auto simp: fle_def)

lemma fle_between_fin:
  assumes "fle (Fin a) x" "fle x (Fin b)"
  shows "\<exists>q. x = Fin q \<and> a \<le> q \<and> q \<le> b"
  using assms by (cases x) (auto simp: fle_def)

lemma float_of_int_Inr:
  "float_of_int i = Inr x \<longleftrightarrow> (\<exists>q. b64_of_int i = Fin q \<and> x = Fin q)"
  by (auto simp: float_of_int_def b64_of_int_def split: pyfloat.splits)

lemma b64_of_int_mono: "i \<le> j \<Longrightarrow> fle (b64_of_int i) (b64_of_int j)"
  unfolding b64_of_int_def by (rule round_b64_mono) simp

lemma b64_of_int_0 [simp]: "b64_of_int 0 = Fin 0"
  by (simp add: b64_of_int_def)

lemma b64_of_int_1 [simp]: "b64_of_int 1 = Fin 1"
  using round_b64_int [of 1] by (simp add: b64_of_int_def)

lemma b64_of_int_numeral:
  "numeral k < (2::int) ^ 53 \<Longrightarrow> b64_of_int (numeral k) = Fin (numeral k)"
  by (simp add: b64_of_int_def round_b64_numeral)

lemma float_of_int_numeral:
  "numeral k < (2::int) ^ 53 \<Longrightarrow> float_of_int (numeral k) = Inr (Fin (numeral k))"
  by (simp add: float_of_int_def round_b64_numeral)

lemma b64_of_int_between:
  assumes "b64_of_int n = Fin qn" "0 \<le> i" "i \<le> n"
  shows "\<exists>q. b64_of_int i = Fin q \<and> 0 \<le> q \<and> q \<le> qn"
proof -
  have "fle (Fin 0) (b64_of_int i)" using b64_of_int_mono [OF assms(2)] by simp
  moreover have "fle (b64_of_int i) (Fin qn)" using b64_of_int_mono [OF assms(3)] assms(1) by simp
  ultimately show ?thesis by (rule fle_between_fin)
qed

lemma int_times_ok:
  assumes "b64_of_int i = Fin q"
  shows "int_times i x = Inr (fmul (b64_of_int i) x)"
  using assms by (simp add: int_times_def float_of_int_def b64_of_int_def)

lemma columns_loop_ok:
  assumes "\<forall>i\<in>set js. (\<exists>q. b64_of_int i = Fin q) \<and> (\<exists>q. b64_of_int (i + 1) = Fin q)"
  shows "columns_loop step js cols
           = Inr (cols @ map (\<lambda>i. (fmul (b64_of_int i) step, fmul (b64_of_int (i + 1)) step)) js)"
  using assms
proof (induction js arbitrary: cols)
  case Nil
  then show ?case by simp
next
  case (Cons j js)
  from Cons.prems obtain q q' where "b64_of_int j = Fin q" "b64_of_int (j + 1) = Fin q'"
    by auto
  then have "int_times j step = Inr (fmul (b64_of_int j) step)"
    "int_times (j + 1) step = Inr (fmul (b64_of_int (j + 1)) step)"
    by (simp_all add: int_times_ok)
  with Cons show ?case by simp
qed

lemma range_upto_set: "i \<in> set (range_upto n) \<longleftrightarrow> 0 \<le> i \<and> i < n"
proof
  assume "i \<in> set (range_upto n)"
  then obtain k where "i = int k" "k < nat n" by (auto simp: range_upto_def)
  then show "0 \<le> i \<and> i < n" by simp
next
  assume a: "0 \<le> i \<and> i < n"
  then have "nat i \<in> set [0 ..< nat n]" by simp
  then have "int (nat i) \<in> int ` set [0 ..< nat n]" by (rule imageI)
  then have "int (nat i) \<in> set (map int [0 ..< nat n])" by (simp only: set_map)
  with a show "i \<in> set (range_upto n)" by (simp add: range_upto_def)
qed

lemma range_upto_length [simp]: "length (range_upto n) = nat n"
  by (simp add: range_upto_def)

lemma range_upto_nth: "k < nat n \<Longrightarrow> range_upto n ! k = int k"
  by (simp add: range_upto_def)

lemma equal_columns_boxes:
  assumes "0 < w" "round_b64 w = Fin w" "1 \<le> n" "float_of_int n = Inr fn"
  shows "\<exists>qn s. fn = Fin qn \<and> 1 \<le> qn \<and> 0 \<le> s \<and> s \<le> w \<and>
           fdiv (Fin w) fn = Inr (Fin s) \<and>
           equal_columns (Fin w) n = Inr (map (column_box (Fin s)) (range_upto n))"
proof -
  from assms(4) obtain qn where qn: "b64_of_int n = Fin qn" "fn = Fin qn"
    by (auto simp: float_of_int_Inr)
  have "fle (b64_of_int 1) (b64_of_int n)" using assms(3) by (rule b64_of_int_mono)
  with qn have q1: "1 \<le> qn" by simp
  then have q0: "qn \<noteq> 0" by simp
  have dv: "fdiv (Fin w) fn = Inr (round_b64 (w / qn))" using qn q0 by simp
  have "w / qn \<le> w" using assms(1) q1 by (simp add: field_simps)
  then have "fle (round_b64 (w / qn)) (Fin w)" using round_b64_mono [of "w / qn" w] assms(2) by simp
  moreover have "0 \<le> w / qn" using assms(1) q1 by simp
  then have "fle (Fin 0) (round_b64 (w / qn))" using round_b64_mono [of 0 "w / qn"] by simp
  ultimately obtain s where s: "round_b64 (w / qn) = Fin s" "0 \<le> s" "s \<le> w"
    using fle_between_fin by blast
  have "\<forall>i\<in>set (range_upto n). (\<exists>q. b64_of_int i = Fin q) \<and> (\<exists>q. b64_of_int (i + 1) = Fin q)"
  proof
    fix i assume "i \<in> set (range_upto n)"
    then have i: "0 \<le> i" "i < n" by (simp_all add: range_upto_set)
    then have "0 \<le> i + 1" "i + 1 \<le> n" by simp_all
    moreover have "i \<le> n" using i by simp
    ultimately show
      "(\<exists>q. b64_of_int i = Fin q) \<and> (\<exists>q. b64_of_int (i + 1) = Fin q)"
      using i b64_of_int_between [OF qn(1), of i] b64_of_int_between [OF qn(1), of "i + 1"]
      by blast
  qed
  then have "columns_loop (Fin s) (range_upto n) []
      = Inr ([] @ map (\<lambda>i. (fmul (b64_of_int i) (Fin s), fmul (b64_of_int (i + 1)) (Fin s))) (range_upto n))"
    by (rule columns_loop_ok)
  then have "equal_columns (Fin w) n = Inr (map (column_box (Fin s)) (range_upto n))"
    using assms(4) dv s(1) qn by (simp add: equal_columns_def column_box_def [abs_def])
  with qn q1 s dv show ?thesis by simp
qed

lemma column_box_ordered:
  assumes "b64_of_int n = Fin qn" "0 \<le> i" "i < n" "0 \<le> s"
  shows "fle (fst (column_box (Fin s) i)) (snd (column_box (Fin s) i))"
proof -
  from b64_of_int_between [OF assms(1), of i] assms obtain a where a: "b64_of_int i = Fin a"
    by auto
  from b64_of_int_between [OF assms(1), of "i + 1"] assms obtain b where b: "b64_of_int (i + 1) = Fin b"
    by auto
  have "fle (Fin a) (Fin b)" using b64_of_int_mono [of i "i + 1"] a b by simp
  then have "a \<le> b" by simp
  then have "a * s \<le> b * s" using assms(4) by (rule mult_right_mono)
  then show ?thesis using a b by (simp add: column_box_def round_b64_mono)
qed

lemma contiguous_map_upt:
  assumes "\<And>k. snd (g k) = fst (g (Suc k))"
  shows "contiguous (map g [a ..< b])"
proof (induction "b - a" arbitrary: a)
  case 0
  then show ?case by simp
next
  case (Suc d)
  then have ab: "a < b" by simp
  then have u: "[a ..< b] = a # [Suc a ..< b]" by (rule upt_conv_Cons)
  from Suc have ih: "contiguous (map g [Suc a ..< b])" by simp
  show ?case
  proof (cases "Suc a < b")
    case True
    then have "[Suc a ..< b] = Suc a # [Suc (Suc a) ..< b]" by (rule upt_conv_Cons)
    with u ih assms show ?thesis by simp
  next
    case False
    with u show ?thesis by simp
  qed
qed

lemma column_boxes_contiguous: "contiguous (map (column_box st) (range_upto n))"
proof -
  have "contiguous (map (\<lambda>k. column_box st (int k)) [0 ..< nat n])"
    by (rule contiguous_map_upt) (simp add: column_box_def add.commute)
  then show ?thesis by (simp add: range_upto_def comp_def)
qed

lemma equal_columns_structure:
  assumes "0 < w" "round_b64 w = Fin w" "1 \<le> n" "float_of_int n = Inr fn"
  shows "\<exists>s bs. fdiv (Fin w) fn = Inr (Fin s) \<and> equal_columns (Fin w) n = Inr bs \<and>
           length bs = nat n \<and> bs = map (column_box (Fin s)) (range_upto n) \<and>
           fst (hd bs) = Fin 0 \<and> contiguous bs \<and> list_all (\<lambda>b. fle (fst b) (snd b)) bs"
proof -
  from equal_columns_boxes [OF assms] obtain qn s where
    h: "fn = Fin qn" "0 \<le> s" "fdiv (Fin w) fn = Inr (Fin s)"
       "equal_columns (Fin w) n = Inr (map (column_box (Fin s)) (range_upto n))"
    by blast
  let ?bs = "map (column_box (Fin s)) (range_upto n)"
  from assms(4) h(1) have qn: "b64_of_int n = Fin qn" by (simp add: float_of_int_Inr)
  have ne: "range_upto n \<noteq> []" using assms(3) by (simp add: range_upto_def)
  have "hd (range_upto n) = 0"
    using assms(3) range_upto_nth [of 0 n] ne by (simp add: hd_conv_nth)
  then have "fst (hd ?bs) = Fin 0" using ne by (simp add: hd_map column_box_def)
  moreover have "list_all (\<lambda>b. fle (fst b) (snd b)) ?bs"
    unfolding list_all_iff
  proof
    fix b assume "b \<in> set ?bs"
    then obtain i where "b = column_box (Fin s) i" "0 \<le> i" "i < n"
      by (auto simp: range_upto_set)
    with column_box_ordered [OF qn _ _ h(2)] show "fle (fst b) (snd b)" by simp
  qed
  ultimately show ?thesis
    using h(3,4) column_boxes_contiguous [of "Fin s" n] by simp
qed

lemma range_upto_4: "range_upto 4 = [0, 1, 2, 3]" by code_simp
lemma range_upto_3: "range_upto 3 = [0, 1, 2]" by code_simp

lemma equal_columns_200_4:
  "equal_columns (Fin 200) 4
     = Inr [(Fin 0, Fin 50), (Fin 50, Fin 100), (Fin 100, Fin 150), (Fin 150, Fin 200)]"
  by (simp add: equal_columns_def float_of_int_numeral round_b64_numeral range_upto_4
        int_times_def float_of_int_def)

lemma last_range_upto: "1 \<le> n \<Longrightarrow> last (range_upto n) = n - 1"
proof -
  assume n: "1 \<le> n"
  then have "[0 ..< nat n] \<noteq> []" by simp
  then have "last (range_upto n) = int (last [0 ..< nat n])"
    by (simp add: range_upto_def last_map)
  also have "\<dots> = n - 1" using n by simp
  finally show ?thesis .
qed

lemma unit_roundoff_bounds: "0 \<le> unit_roundoff" "unit_roundoff \<le> 1"
  by (simp_all add: unit_roundoff_def pow2_def)

lemma tiny_nonneg: "0 \<le> tiny"
  by (simp add: tiny_def)

lemma coord_bound:
  assumes q: "0 \<le> q" and s: "round_b64 q = Fin s" and I: "0 \<le> I"
    and a: "round_b64 (I * s) = Fin a"
  shows "\<bar>a - I * q\<bar> \<le> 3 * unit_roundoff * (I * q) + (2 * I + 1) * tiny"
proof -
  let ?u = unit_roundoff
  define A where "A = I * q * ?u"
  define B where "B = I * tiny"
  note u = unit_roundoff_bounds
  have A0: "0 \<le> A" unfolding A_def using q I u(1) by simp
  have B0: "0 \<le> B" unfolding B_def using I tiny_nonneg by simp
  have "fle (round_b64 0) (round_b64 q)" using q by (rule round_b64_mono)
  then have s0: "0 \<le> s" using s by simp
  have e1: "\<bar>s - q\<bar> \<le> q * ?u + tiny" using round_b64_error [OF s] q by simp
  have Is0: "0 \<le> I * s" using I s0 by simp
  have e2: "\<bar>a - I * s\<bar> \<le> I * s * ?u + tiny" using round_b64_error [OF a] Is0 by simp
  from e1 have "s \<le> q + q * ?u + tiny" by linarith
  then have "I * s \<le> I * (q + q * ?u + tiny)" using I by (rule mult_left_mono)
  then have "I * s * ?u \<le> I * (q + q * ?u + tiny) * ?u" using u(1) by (rule mult_right_mono)
  also have "\<dots> = A + A * ?u + B * ?u" by (simp add: A_def B_def algebra_simps)
  also have "\<dots> \<le> A + A + B"
  proof -
    have "A * ?u \<le> A * 1" using A0 u(2) by (rule mult_left_mono[rotated])
    moreover have "B * ?u \<le> B * 1" using B0 u(2) by (rule mult_left_mono[rotated])
    ultimately show ?thesis by simp
  qed
  finally have b1: "I * s * ?u \<le> 2 * A + B" by simp
  have "I * \<bar>s - q\<bar> \<le> I * (q * ?u + tiny)" using e1 I by (rule mult_left_mono)
  also have "\<dots> = A + B" by (simp add: A_def B_def algebra_simps)
  finally have b2: "I * \<bar>s - q\<bar> \<le> A + B" .
  have "\<bar>I * s - I * q\<bar> = I * \<bar>s - q\<bar>"
    using I by (simp add: abs_mult right_diff_distrib [symmetric])
  with b2 have b3: "\<bar>I * s - I * q\<bar> \<le> A + B" by simp
  have "\<bar>a - I * q\<bar> \<le> \<bar>a - I * s\<bar> + \<bar>I * s - I * q\<bar>" by simp
  with e2 b1 b3 have "\<bar>a - I * q\<bar> \<le> 3 * A + 2 * B + tiny" by linarith
  also have "3 * A + 2 * B + tiny = 3 * ?u * (I * q) + (2 * I + 1) * tiny"
    by (simp add: A_def B_def algebra_simps)
  finally show ?thesis .
qed

lemma coord_finite:
  assumes q: "0 \<le> q" and s: "round_b64 q = Fin s" and I: "0 \<le> I" "I \<le> N"
    and N: "N \<le> 2 ^ 53" and w: "N * q \<le> pow2 1023"
  shows "\<exists>a. round_b64 (I * s) = Fin a"
proof -
  let ?u = unit_roundoff
  note u = unit_roundoff_bounds
  have N0: "0 \<le> N" using I by simp
  have "fle (round_b64 0) (round_b64 q)" using q by (rule round_b64_mono)
  then have s0: "0 \<le> s" using s by simp
  have e1: "\<bar>s - q\<bar> \<le> q * ?u + tiny" using round_b64_error [OF s] q by simp
  then have "s \<le> q + q * ?u + tiny" by linarith
  then have "N * s \<le> N * (q + q * ?u + tiny)" using N0 by (rule mult_left_mono)
  also have "\<dots> = N * q + N * q * ?u + N * tiny" by (simp add: algebra_simps)
  also have "\<dots> \<le> pow2 1023 + pow2 1023 * ?u + 2 ^ 53 * tiny"
  proof -
    have "0 \<le> N * q" using N0 q by simp
    then have "N * q * ?u \<le> pow2 1023 * ?u" using w u(1) by (intro mult_right_mono)
    moreover have "N * tiny \<le> 2 ^ 53 * tiny" using N tiny_nonneg by (intro mult_right_mono)
    ultimately show ?thesis using w by linarith
  qed
  also have "\<dots> \<le> of_int (3 * 2 ^ 51) * pow2 971"
    by (simp add: pow2_def unit_roundoff_def tiny_def)
  finally have le: "N * s \<le> of_int (3 * 2 ^ 51) * pow2 971" .
  have "I * s \<le> N * s" using I(2) s0 by (rule mult_right_mono)
  with le have "I * s \<le> of_int (3 * 2 ^ 51) * pow2 971" by linarith
  then have "fle (round_b64 (I * s)) (round_b64 (of_int (3 * 2 ^ 51) * pow2 971))"
    by (rule round_b64_mono)
  moreover have "round_b64 (of_int (3 * 2 ^ 51) * pow2 971) = Fin (of_int (3 * 2 ^ 51) * pow2 971)"
    by (rule round_b64_exact) simp_all
  moreover have "fle (round_b64 0) (round_b64 (I * s))"
    using I(1) s0 by (intro round_b64_mono) simp
  ultimately show ?thesis using fle_between_fin [of 0 "round_b64 (I * s)"] by auto
qed

lemma b64_of_int_small: "0 \<le> i \<Longrightarrow> i < 2 ^ 53 \<Longrightarrow> b64_of_int i = Fin (of_int i)"
  unfolding b64_of_int_def by (rule round_b64_int) simp

lemma equal_columns_accuracy:
  assumes w: "0 < w" and n: "1 \<le> n" "n < 2 ^ 53" and s: "round_b64 (w / of_int n) = Fin s"
    and i: "0 \<le> i" "i \<le> n"
  shows "\<forall>a. fmul (b64_of_int i) (Fin s) = Fin a \<longrightarrow>
              \<bar>a - of_int i * (w / of_int n)\<bar> \<le> coord_error w n i"
    and "w \<le> pow2 1023 \<Longrightarrow> \<exists>a. fmul (b64_of_int i) (Fin s) = Fin a"
proof -
  have bi: "b64_of_int i = Fin (of_int i)" using i n by (intro b64_of_int_small) simp_all
  have q: "0 \<le> w / of_int n" using w n by simp
  have I: "(0::rat) \<le> of_int i" using i by simp
  show "\<forall>a. fmul (b64_of_int i) (Fin s) = Fin a \<longrightarrow>
              \<bar>a - of_int i * (w / of_int n)\<bar> \<le> coord_error w n i"
    using coord_bound [OF q s I] by (simp add: bi coord_error_def)
  assume wb: "w \<le> pow2 1023"
  have "n \<le> 2 ^ 53" using n(2) by simp
  then have "(of_int n :: rat) \<le> of_int (2 ^ 53)" by (simp only: of_int_le_iff)
  then have N: "(of_int n :: rat) \<le> 2 ^ 53" by simp
  have nq: "of_int n * (w / of_int n) \<le> pow2 1023" using wb n by simp
  have In: "(of_int i :: rat) \<le> of_int n" using i by simp
  have "\<exists>a. round_b64 (of_int i * s) = Fin a"
    using q s I In N nq by (rule coord_finite)
  then show "\<exists>a. fmul (b64_of_int i) (Fin s) = Fin a" by (simp add: bi)
qed

text \<open>
  Claim C6, as amended. For every width \<open>W > 0\<close> that is a float value and every count
  \<open>N \<ge> 1\<close> that \<open>float(N)\<close> accepts, equal-column generation returns exactly \<open>N\<close>
  boxes; box \<open>i\<close> is \<open>(i * step, (i + 1) * step)\<close> in float arithmetic, where \<open>step\<close> is
  the float quotient \<open>W / N\<close>; the first box starts at 0, each box ends where the next
  one starts, every box has \<open>x0 \<le> x1\<close>, and the last box ends at \<open>N * step\<close>. The boxes
  are equal and cover \<open>[0, W]\<close> up to rounding: for \<open>N < 2^53\<close> every finite coordinate
  \<open>i * step\<close> is within \<open>3 * 2^-53 * i * W / N + (2 i + 1) * 2^-1075\<close> of the exact
  \<open>i * W / N\<close>, so the end of the last box is within that bound (at \<open>i = N\<close>) of \<open>W\<close> and
  every width is within the sum of its two ends' bounds of \<open>W / N\<close>; and every coordinate
  is finite when \<open>W \<le> 2^1023\<close>.
\<close>

theorem equal_columns_rounded:
  assumes "0 < w" "round_b64 w = Fin w" "1 \<le> n" "float_of_int n = Inr fn"
  shows "\<exists>s bs. fdiv (Fin w) fn = Inr (Fin s) \<and> equal_columns (Fin w) n = Inr bs \<and>
           length bs = nat n \<and> bs = map (column_box (Fin s)) (range_upto n) \<and>
           fst (hd bs) = Fin 0 \<and> contiguous bs \<and> list_all (\<lambda>b. fle (fst b) (snd b)) bs \<and>
           snd (last bs) = fmul (b64_of_int n) (Fin s) \<and>
           (n < 2 ^ 53 \<longrightarrow>
              (\<forall>i a. 0 \<le> i \<and> i \<le> n \<and> fmul (b64_of_int i) (Fin s) = Fin a \<longrightarrow>
                 \<bar>a - of_int i * (w / of_int n)\<bar> \<le> coord_error w n i) \<and>
              (\<forall>a. snd (last bs) = Fin a \<longrightarrow> \<bar>a - w\<bar> \<le> coord_error w n n) \<and>
              (\<forall>i a c. 0 \<le> i \<and> i < n \<and> column_box (Fin s) i = (Fin a, Fin c) \<longrightarrow>
                 \<bar>(c - a) - w / of_int n\<bar> \<le> coord_error w n i + coord_error w n (i + 1)) \<and>
              (w \<le> pow2 1023 \<longrightarrow>
                 (\<forall>i. 0 \<le> i \<and> i \<le> n \<longrightarrow> (\<exists>a. fmul (b64_of_int i) (Fin s) = Fin a))))"
proof -
  from equal_columns_structure [OF assms] obtain s bs where
    h: "fdiv (Fin w) fn = Inr (Fin s)" "equal_columns (Fin w) n = Inr bs" "length bs = nat n"
       "bs = map (column_box (Fin s)) (range_upto n)" "fst (hd bs) = Fin 0" "contiguous bs"
       "list_all (\<lambda>b. fle (fst b) (snd b)) bs"
    by blast
  have ne: "range_upto n \<noteq> []" using assms(3) by (simp add: range_upto_def)
  have lst: "snd (last bs) = fmul (b64_of_int n) (Fin s)"
    using ne last_range_upto [OF assms(3)] by (simp add: h(4) last_map column_box_def)
  have acc: "(\<forall>i a. 0 \<le> i \<and> i \<le> n \<and> fmul (b64_of_int i) (Fin s) = Fin a \<longrightarrow>
                 \<bar>a - of_int i * (w / of_int n)\<bar> \<le> coord_error w n i) \<and>
              (\<forall>a. snd (last bs) = Fin a \<longrightarrow> \<bar>a - w\<bar> \<le> coord_error w n n) \<and>
              (\<forall>i a c. 0 \<le> i \<and> i < n \<and> column_box (Fin s) i = (Fin a, Fin c) \<longrightarrow>
                 \<bar>(c - a) - w / of_int n\<bar> \<le> coord_error w n i + coord_error w n (i + 1)) \<and>
              (w \<le> pow2 1023 \<longrightarrow>
                 (\<forall>i. 0 \<le> i \<and> i \<le> n \<longrightarrow> (\<exists>a. fmul (b64_of_int i) (Fin s) = Fin a)))"
    if n53: "n < 2 ^ 53"
  proof -
    have bn: "b64_of_int n = Fin (of_int n)" using assms(3) n53 by (intro b64_of_int_small) simp_all
    with assms(4) have fn: "fn = Fin (of_int n)" by (simp add: float_of_int_Inr)
    have n0: "(of_int n :: rat) \<noteq> 0" using assms(3) by simp
    from h(1) have s: "round_b64 (w / of_int n) = Fin s" using n0 by (simp add: fn)
    note A = equal_columns_accuracy [OF assms(1,3) n53 s]
    have c1: "\<forall>i a. 0 \<le> i \<and> i \<le> n \<and> fmul (b64_of_int i) (Fin s) = Fin a \<longrightarrow>
                 \<bar>a - of_int i * (w / of_int n)\<bar> \<le> coord_error w n i"
      using A(1) by blast
    have c2: "\<forall>a. snd (last bs) = Fin a \<longrightarrow> \<bar>a - w\<bar> \<le> coord_error w n n"
    proof (intro allI impI)
      fix a assume "snd (last bs) = Fin a"
      then have "fmul (b64_of_int n) (Fin s) = Fin a" by (simp add: lst)
      with c1 [rule_format, of n a] assms(3)
      have "\<bar>a - of_int n * (w / of_int n)\<bar> \<le> coord_error w n n" by simp
      then show "\<bar>a - w\<bar> \<le> coord_error w n n" using n0 by simp
    qed
    have c3: "\<forall>i a c. 0 \<le> i \<and> i < n \<and> column_box (Fin s) i = (Fin a, Fin c) \<longrightarrow>
                 \<bar>(c - a) - w / of_int n\<bar> \<le> coord_error w n i + coord_error w n (i + 1)"
    proof (intro allI impI)
      fix i a c assume h: "0 \<le> i \<and> i < n \<and> column_box (Fin s) i = (Fin a, Fin c)"
      then have "fmul (b64_of_int i) (Fin s) = Fin a" "fmul (b64_of_int (i + 1)) (Fin s) = Fin c"
        by (simp_all add: column_box_def)
      with c1 [rule_format, of i a] c1 [rule_format, of "i + 1" c] h
      have b: "\<bar>a - of_int i * (w / of_int n)\<bar> \<le> coord_error w n i"
        "\<bar>c - of_int (i + 1) * (w / of_int n)\<bar> \<le> coord_error w n (i + 1)"
        by simp_all
      define X where "X = c - of_int (i + 1) * (w / of_int n)"
      define Y where "Y = a - of_int i * (w / of_int n)"
      have e: "(c - a) - w / of_int n = X - Y"
        by (simp add: X_def Y_def algebra_simps add_divide_distrib)
      have "\<bar>X - Y\<bar> \<le> \<bar>X\<bar> + \<bar>Y\<bar>" by (rule abs_triangle_ineq4)
      with b show "\<bar>(c - a) - w / of_int n\<bar> \<le> coord_error w n i + coord_error w n (i + 1)"
        unfolding e X_def [symmetric] Y_def [symmetric] by linarith
    qed
    have c4: "w \<le> pow2 1023 \<longrightarrow>
                 (\<forall>i. 0 \<le> i \<and> i \<le> n \<longrightarrow> (\<exists>a. fmul (b64_of_int i) (Fin s) = Fin a))"
      using A(2) by blast
    from c1 c2 c3 c4 show ?thesis by blast
  qed
  from h lst acc show ?thesis by blast
qed

text \<open>With \<open>W = 200\<close> and \<open>N = 4\<close> every product is a float value and the boxes are
  exactly the four quarters of \<open>[0, 200]\<close>.\<close>

theorem equal_columns_rounded_witness:
  "(0::rat) < 200 \<and> round_b64 200 = Fin 200 \<and> (1::int) \<le> 4 \<and> float_of_int 4 = Inr (Fin 4) \<and>
   (4::int) < 2 ^ 53 \<and> (200::rat) \<le> pow2 1023 \<and>
   (\<exists>s bs. fdiv (Fin 200) (Fin 4) = Inr (Fin s) \<and> equal_columns (Fin 200) 4 = Inr bs \<and>
      length bs = nat 4 \<and> fst (hd bs) = Fin 0 \<and> contiguous bs \<and>
      snd (last bs) = fmul (b64_of_int 4) (Fin s) \<and>
      (\<exists>a. snd (last bs) = Fin a \<and> \<bar>a - 200\<bar> \<le> coord_error 200 4 4)) \<and>
   equal_columns (Fin 200) 4
     = Inr [(Fin 0, Fin 50), (Fin 50, Fin 100), (Fin 100, Fin 150), (Fin 150, Fin 200)] \<and>
   equal_columns_exact 200 4"
proof -
  have a: "round_b64 200 = Fin 200" by (simp add: round_b64_numeral)
  have b: "float_of_int 4 = Inr (Fin 4)" by (simp add: float_of_int_numeral)
  have c: "equal_columns_exact 200 4"
    by (simp add: equal_columns_exact_def equal_columns_200_4 covers_exactly_def box_width_def)
  have p: "(200::rat) \<le> pow2 1023" by (simp add: pow2_def)
  from equal_columns_rounded [of 200 4 "Fin 4"] a b obtain s bs where
    h: "fdiv (Fin 200) (Fin 4) = Inr (Fin s)" "equal_columns (Fin 200) 4 = Inr bs"
       "length bs = nat 4" "fst (hd bs) = Fin 0" "contiguous bs"
       "snd (last bs) = fmul (b64_of_int 4) (Fin s)"
       "\<forall>a. snd (last bs) = Fin a \<longrightarrow> \<bar>a - 200\<bar> \<le> coord_error 200 4 4"
    by auto
  from h(2) have bs: "bs = [(Fin 0, Fin 50), (Fin 50, Fin 100), (Fin 100, Fin 150), (Fin 150, Fin 200)]"
    by (simp add: equal_columns_200_4)
  then have "snd (last bs) = Fin 200" by simp
  with h(7) have "\<exists>a. snd (last bs) = Fin a \<and> \<bar>a - 200\<bar> \<le> coord_error 200 4 4" by blast
  with h a b c p equal_columns_200_4 show ?thesis by auto
qed

lemma round_b64_third: "round_b64 (1 / 3) = Fin (6004799503160661 / 18014398509481984)"
  using round_b64_nearest [of "1/3" "-2" 6004799503160661] by (simp add: pow2_def)

lemma equal_columns_1_3:
  "equal_columns (Fin 1) 3
     = Inr [(Fin 0, Fin (6004799503160661 / 18014398509481984)),
            (Fin (6004799503160661 / 18014398509481984), Fin (6004799503160661 / 9007199254740992)),
            (Fin (6004799503160661 / 9007199254740992), Fin 1)]"
proof -
  have r2: "round_b64 (2 * (6004799503160661 / 18014398509481984)) = Fin (6004799503160661 / 9007199254740992)"
    using round_b64_nearest [of "2 * (6004799503160661 / 18014398509481984)" "-1" 6004799503160661]
    by (simp add: pow2_def)
  have "round_half_even (3 * (6004799503160661 / 18014398509481984) / pow2 (max (- 1) (- 1022) - 52))
          = round_half_even (of_int 9007199254740991 + 1 / 2)"
    by (simp add: pow2_def)
  also have "\<dots> = 9007199254740992" by (simp only: rhe_tie) simp
  finally have r3: "round_b64 (3 * (6004799503160661 / 18014398509481984)) = Fin 1"
    using round_b64_by_exp [of "3 * (6004799503160661 / 18014398509481984)" "-1" 9007199254740992]
    by (simp add: pow2_def)
  have r1: "round_b64 (6004799503160661 / 18014398509481984) = Fin (6004799503160661 / 18014398509481984)"
    using round_b64_exact [of 6004799503160661 "- 54"] by (simp add: pow2_def)
  show ?thesis
    using r1 r2 r3
    by (simp add: equal_columns_def float_of_int_numeral round_b64_third range_upto_3
          int_times_def float_of_int_def round_b64_numeral)
qed

lemma round_b64_49th: "round_b64 (1 / 49) = Fin (5882252574524729 / 288230376151711744)"
  using round_b64_nearest [of "1/49" "-6" 5882252574524729] by (simp add: pow2_def)

lemma round_b64_49_times:
  "round_b64 (288230376151711721 / 288230376151711744)
     = Fin (9007199254740991 / 9007199254740992)"
  using round_b64_nearest [of "288230376151711721 / 288230376151711744" "-1" 9007199254740991]
  by (simp add: pow2_def)

lemma last_column_1_49:
  "\<exists>bs. equal_columns (Fin 1) 49 = Inr bs \<and> bs \<noteq> [] \<and>
        snd (last bs) = Fin (9007199254740991 / 9007199254740992)"
proof -
  have f: "float_of_int 49 = Inr (Fin 49)" by (simp add: float_of_int_numeral)
  from equal_columns_boxes [of 1 49 "Fin 49"] f obtain s where
    s: "fdiv (Fin 1) (Fin 49) = Inr (Fin s)"
       "equal_columns (Fin 1) 49 = Inr (map (column_box (Fin s)) (range_upto 49))"
    by auto
  from s(1) have sv: "s = 5882252574524729 / 288230376151711744"
    by (simp add: round_b64_49th)
  have ne: "range_upto 49 \<noteq> []" by (simp add: range_upto_def)
  then have "snd (last (map (column_box (Fin s)) (range_upto 49))) = snd (column_box (Fin s) 48)"
    using last_range_upto [of 49] by (simp add: last_map)
  also have "\<dots> = Fin (9007199254740991 / 9007199254740992)"
    by (simp add: column_box_def b64_of_int_numeral sv round_b64_49_times)
  finally show ?thesis using s(2) ne by simp
qed

text \<open>
  Claim C6 as stated fails in float arithmetic. With \<open>W = 1\<close> and \<open>N = 3\<close> the step is
  the float nearest to one third, the first two boxes have that width and the third is
  wider, so the widths are not all \<open>W / N\<close>; with \<open>W = 1\<close> and \<open>N = 49\<close> the last box
  ends at \<open>49 * (1 / 49) = 0.9999999999999999\<close>, not at \<open>W\<close>.
\<close>

theorem equal_columns_not_exact:
  "equal_columns (Fin 1) 3
     = Inr [(Fin 0, Fin (6004799503160661 / 18014398509481984)),
            (Fin (6004799503160661 / 18014398509481984), Fin (6004799503160661 / 9007199254740992)),
            (Fin (6004799503160661 / 9007199254740992), Fin 1)] \<and>
   \<not> equal_columns_exact 1 3 \<and> \<not> equal_columns_exact 1 49"
proof -
  have a: "\<not> equal_columns_exact 1 3"
    by (simp add: equal_columns_exact_def equal_columns_1_3 covers_exactly_def box_width_def)
  from last_column_1_49 have b: "\<not> equal_columns_exact 1 49"
    by (auto simp: equal_columns_exact_def covers_exactly_def)
  from a b equal_columns_1_3 show ?thesis by simp
qed

section \<open>Line reconstructor: skipped glyphs, markup, spacing\<close>

lemmas round_b64_small = round_b64_numeral

lemma looks_bold_examples: "looks_bold ''Arial-Bold''" "\<not> looks_bold ''Arial''"
  by code_simp+

lemma example_line_pieces:
  "reconstruct_pieces example_line (Fin 1)
     = [BoldOpen, Txt ''A'', Space, BoldClose, Txt ''B'', BoldOpen, Txt ''C'', BoldClose]"
  by (simp add: reconstruct_pieces_def example_line_def reconstruct_step_def rstate0_def
        mk_glyph_def space_pieces_def glyph_width_def pymax_def looks_bold_examples
        round_b64_small Let_def)

lemma step_skip: "ch_text g = [] \<Longrightarrow> reconstruct_step gr s g = s"
  by (simp add: reconstruct_step_def)

lemma foldl_skip:
  "foldl (reconstruct_step gr) s (filter has_text gs) = foldl (reconstruct_step gr) s gs"
  by (induction gs arbitrary: s) (simp_all add: has_text_def step_skip)

lemma foldl_all_skipped:
  "\<forall>g\<in>set gs. ch_text g = [] \<Longrightarrow> foldl (reconstruct_step gr) s gs = s"
  by (induction gs arbitrary: s) (simp_all add: step_skip)

lemma pieces_filter:
  "reconstruct_pieces (filter has_text gs) gr = reconstruct_pieces gs gr"
proof (cases "filter has_text gs = []")
  case True
  then have "\<forall>g\<in>set gs. ch_text g = []"
    by (auto simp: filter_empty_conv has_text_def)
  then have "foldl (reconstruct_step gr) rstate0 gs = rstate0"
    by (rule foldl_all_skipped)
  with True show ?thesis
    by (simp add: reconstruct_pieces_def rstate0_def)
next
  case False
  then have "gs \<noteq> []" by auto
  with False show ?thesis
    by (simp add: reconstruct_pieces_def foldl_skip)
qed

lemma skip_anywhere:
  assumes "ch_text g = []"
  shows "reconstruct_line_with_bold (xs @ g # ys) gr = reconstruct_line_with_bold (xs @ ys) gr"
proof -
  have "filter has_text (xs @ g # ys) = filter has_text (xs @ ys)"
    using assms by (simp add: has_text_def)
  then have "reconstruct_pieces (xs @ g # ys) gr = reconstruct_pieces (xs @ ys) gr"
    by (metis pieces_filter)
  then show ?thesis by (simp add: reconstruct_line_with_bold_def)
qed

lemma gap_source:
  assumes "ch_text h \<noteq> []" "\<forall>g\<in>set sk. ch_text g = []"
  shows "prev_x1 (foldl (reconstruct_step gr) s (h # sk)) = ch_x1 h \<and>
         prev_w (foldl (reconstruct_step gr) s (h # sk)) = glyph_width h"
  using assms by (simp add: foldl_all_skipped reconstruct_step_def Let_def)

text \<open>
  Claim C8. A glyph whose text is empty leaves the whole loop state as it was (output,
  bold flag, previous right edge and previous width), so the result of the
  reconstructor is the same with the glyph removed from anywhere in the line; and after
  a glyph with text followed by any number of empty glyphs, the right edge and width
  the next gap is measured from are still those of the glyph with text.
\<close>

theorem empty_glyph_skipped:
  "(ch_text g = [] \<longrightarrow> reconstruct_step gap_ratio s g = s) \<and>
   (ch_text g = [] \<longrightarrow>
      reconstruct_line_with_bold (xs @ g # ys) gap_ratio
        = reconstruct_line_with_bold (xs @ ys) gap_ratio) \<and>
   (ch_text h \<noteq> [] \<and> (\<forall>e\<in>set sk. ch_text e = []) \<longrightarrow>
      prev_x1 (foldl (reconstruct_step gap_ratio) s (h # sk)) = ch_x1 h \<and>
      prev_w (foldl (reconstruct_step gap_ratio) s (h # sk)) = glyph_width h)"
  using step_skip skip_anywhere gap_source by blast

theorem empty_glyph_skipped_witness:
  "ch_text (mk_glyph [] 100 115 ''Arial-Bold'') = [] \<and>
   ch_text (mk_glyph ''B'' 12 14 ''Arial'') \<noteq> [] \<and>
   list_all (\<lambda>e. ch_text e = []) [mk_glyph [] 100 115 ''Arial-Bold''] \<and>
   reconstruct_step (Fin 1) rstate0 (mk_glyph [] 100 115 ''Arial-Bold'') = rstate0 \<and>
   reconstruct_line_with_bold
       ([mk_glyph ''A'' 0 5 ''Arial-Bold'', mk_glyph ''B'' 12 14 ''Arial'']
          @ mk_glyph [] 100 115 ''Arial-Bold'' # [mk_glyph ''C'' 14 19 ''Arial-Bold''])
       (Fin 1)
     = reconstruct_line_with_bold
         ([mk_glyph ''A'' 0 5 ''Arial-Bold'', mk_glyph ''B'' 12 14 ''Arial'']
            @ [mk_glyph ''C'' 14 19 ''Arial-Bold''])
         (Fin 1) \<and>
   prev_x1 (foldl (reconstruct_step (Fin 1)) rstate0
              (mk_glyph ''B'' 12 14 ''Arial'' # [mk_glyph [] 100 115 ''Arial-Bold'']))
     = Some (Fin 14)"
proof -
  have e: "ch_text (mk_glyph [] 100 115 ''Arial-Bold'') = []"
    by (simp add: mk_glyph_def)
  have b: "ch_text (mk_glyph ''B'' 12 14 ''Arial'') \<noteq> []"
    by (simp add: mk_glyph_def)
  have x: "ch_x1 (mk_glyph ''B'' 12 14 ''Arial'') = Some (Fin 14)"
    by (simp add: mk_glyph_def)
  show ?thesis
    using e b x
      empty_glyph_skipped [of "mk_glyph [] 100 115 ''Arial-Bold''" "Fin 1" rstate0
        "[mk_glyph ''A'' 0 5 ''Arial-Bold'', mk_glyph ''B'' 12 14 ''Arial'']"
        "[mk_glyph ''C'' 14 19 ''Arial-Bold'']" "mk_glyph ''B'' 12 14 ''Arial''"
        "[mk_glyph [] 100 115 ''Arial-Bold'']"]
    by simp
qed

lemma alternating_append:
  "alternating xs \<Longrightarrow> alternating (xs @ ys) = alternating ys"
  by (induction xs rule: alternating.induct) simp_all

lemma markers_simps [simp]:
  "markers [] = []" "markers (BoldOpen # ps) = BoldOpen # markers ps"
  "markers (BoldClose # ps) = BoldClose # markers ps"
  "markers (Space # ps) = markers ps" "markers (Txt t # ps) = markers ps"
  "markers (xs @ ys) = markers xs @ markers ys"
  by (simp_all add: markers_def is_marker_def)

lemma markers_space_pieces [simp]: "markers (space_pieces gr s g) = []"
  by (simp add: space_pieces_def Let_def split: option.splits)

lemma bold_inv_step: "bold_inv s \<Longrightarrow> bold_inv (reconstruct_step gr s g)"
proof (cases "ch_text g = []")
  case True
  assume "bold_inv s"
  with True show ?thesis by (simp add: step_skip)
next
  case False
  assume inv: "bold_inv s"
  show ?thesis
  proof (cases "in_bold s")
    case True
    with inv False show ?thesis
      by (simp add: bold_inv_def reconstruct_step_def Let_def)
  next
    case nb: False
    with inv have a: "alternating (markers (out s))"
      by (simp add: bold_inv_def)
    have "alternating (markers (out s) @ [BoldOpen, BoldClose])"
      using alternating_append [OF a] by simp
    with nb inv False show ?thesis
      by (simp add: bold_inv_def reconstruct_step_def Let_def)
  qed
qed

lemma bold_inv_foldl: "bold_inv s \<Longrightarrow> bold_inv (foldl (reconstruct_step gr) s gs)"
  by (induction gs arbitrary: s) (simp_all add: bold_inv_step)

lemma markers_balanced: "alternating (markers (reconstruct_pieces line gr))"
proof -
  have "bold_inv rstate0" by (simp add: bold_inv_def rstate0_def)
  then have "bold_inv (foldl (reconstruct_step gr) rstate0 line)"
    by (rule bold_inv_foldl)
  then show ?thesis
    by (auto simp add: reconstruct_pieces_def bold_inv_def Let_def split: if_splits)
qed

lemma step_out_last:
  "ch_text g \<noteq> [] \<Longrightarrow> \<exists>pre. out (reconstruct_step gr s g) = pre @ [Txt (ch_text g)]"
  by (simp add: reconstruct_step_def Let_def)

lemma foldl_snoc_text:
  assumes "filter has_text gs \<noteq> []"
  shows "\<exists>pre. out (foldl (reconstruct_step gr) s gs)
            = pre @ [Txt (ch_text (last (filter has_text gs)))]"
proof -
  from assms obtain fs h where fh: "filter has_text gs = fs @ [h]"
    by (metis rev_exhaust)
  then have "h \<in> set (filter has_text gs)" by simp
  then have ht: "ch_text h \<noteq> []" by (simp add: has_text_def)
  have "foldl (reconstruct_step gr) s gs = foldl (reconstruct_step gr) s (fs @ [h])"
    using foldl_skip [of gr s gs] fh by simp
  also have "\<dots> = reconstruct_step gr (foldl (reconstruct_step gr) s fs) h" by simp
  finally show ?thesis
    using step_out_last [OF ht] fh by simp
qed

lemma in_bold_needs_text:
  "in_bold (foldl (reconstruct_step gr) rstate0 gs) \<Longrightarrow> filter has_text gs \<noteq> []"
proof (rule ccontr)
  assume b: "in_bold (foldl (reconstruct_step gr) rstate0 gs)" and "\<not> filter has_text gs \<noteq> []"
  then have "\<forall>g\<in>set gs. ch_text g = []"
    by (auto simp: filter_empty_conv has_text_def)
  then have "foldl (reconstruct_step gr) rstate0 gs = rstate0" by (rule foldl_all_skipped)
  with b show False by (simp add: rstate0_def)
qed

lemma close_after_last_text:
  assumes "in_bold (foldl (reconstruct_step gr) rstate0 line)"
  shows "\<exists>pre. reconstruct_pieces line gr
           = pre @ [Txt (ch_text (last (filter has_text line))), BoldClose]"
proof -
  from assms have ne: "filter has_text line \<noteq> []" by (rule in_bold_needs_text)
  then have "line \<noteq> []" by auto
  with assms foldl_snoc_text [OF ne, of gr rstate0] show ?thesis
    by (auto simp: reconstruct_pieces_def Let_def)
qed

lemma scan_no_lt: "CHR ''<'' \<notin> set t \<Longrightarrow> scan_markers (t @ r) = scan_markers r"
  by (induction t) auto

lemma scan_pieces:
  "\<forall>t. Txt t \<in> set ps \<longrightarrow> CHR ''<'' \<notin> set t \<Longrightarrow>
   scan_markers (concat (map piece_str ps)) = markers ps"
proof (induction ps)
  case Nil
  then show ?case by simp
next
  case (Cons p ps)
  then have ih: "scan_markers (concat (map piece_str ps)) = markers ps" by simp
  show ?case
  proof (cases p)
    case (Txt t)
    with Cons.prems have "CHR ''<'' \<notin> set t" by simp
    with Txt ih show ?thesis by (simp add: scan_no_lt)
  qed (use ih in simp_all)
qed

lemma step_txt:
  "Txt t \<in> set (out (reconstruct_step gr s g)) \<Longrightarrow> Txt t \<in> set (out s) \<or> t = ch_text g"
  by (auto simp: reconstruct_step_def Let_def space_pieces_def split: if_splits option.splits)

lemma foldl_txt:
  "Txt t \<in> set (out (foldl (reconstruct_step gr) s gs)) \<Longrightarrow>
   Txt t \<in> set (out s) \<or> (\<exists>g\<in>set gs. t = ch_text g)"
proof (induction gs arbitrary: s)
  case Nil
  then show ?case by simp
next
  case (Cons g gs)
  from Cons.IH [of "reconstruct_step gr s g"] Cons.prems
  have "Txt t \<in> set (out (reconstruct_step gr s g)) \<or> (\<exists>g\<in>set gs. t = ch_text g)" by simp
  then show ?case using step_txt by fastforce
qed

lemma pieces_txt:
  "Txt t \<in> set (reconstruct_pieces line gr) \<Longrightarrow> \<exists>g\<in>set line. t = ch_text g"
  using foldl_txt [of t gr rstate0 line]
  by (auto simp: reconstruct_pieces_def Let_def rstate0_def split: if_splits)

lemma string_balanced:
  assumes "\<forall>g\<in>set line. CHR ''<'' \<notin> set (ch_text g)"
  shows "alternating (scan_markers (reconstruct_line_with_bold line gr))"
proof -
  have "\<forall>t. Txt t \<in> set (reconstruct_pieces line gr) \<longrightarrow> CHR ''<'' \<notin> set t"
    using assms pieces_txt by blast
  then have "scan_markers (reconstruct_line_with_bold line gr) = markers (reconstruct_pieces line gr)"
    unfolding reconstruct_line_with_bold_def by (rule scan_pieces)
  then show ?thesis by (simp add: markers_balanced)
qed

lemma close_after_last_text_str:
  assumes "in_bold (foldl (reconstruct_step gr) rstate0 line)"
  shows "\<exists>pre. reconstruct_line_with_bold line gr
           = pre @ ch_text (last (filter has_text line)) @ ''</bold>''"
proof -
  from close_after_last_text [OF assms] obtain pre where
    "reconstruct_pieces line gr = pre @ [Txt (ch_text (last (filter has_text line))), BoldClose]"
    by blast
  then have "reconstruct_line_with_bold line gr
      = concat (map piece_str pre) @ ch_text (last (filter has_text line)) @ ''</bold>''"
    by (simp add: reconstruct_line_with_bold_def)
  then show ?thesis by blast
qed

lemma marker_text_line_string:
  "reconstruct_line_with_bold marker_text_line (Fin 1) = ''x<bold><bold>y</bold>''"
  by (simp add: reconstruct_line_with_bold_def reconstruct_pieces_def marker_text_line_def
        reconstruct_step_def rstate0_def mk_glyph_def space_pieces_def glyph_width_def pymax_def
        looks_bold_examples round_b64_small Let_def)

text \<open>
  Claim C3 as stated fails on the returned string: glyph text is copied into the string
  as it is, so a glyph whose text is \<open><bold>\<close> (or glyphs spelling it) puts a marker into
  the string that the reconstructor never closes. Here the string is
  \<open>x<bold><bold>y</bold>\<close>: two opening markers before one closing marker.
\<close>

theorem bold_markup_string_unbalanced:
  "reconstruct_line_with_bold marker_text_line (Fin 1) = ''x<bold><bold>y</bold>'' \<and>
   \<not> alternating (scan_markers (reconstruct_line_with_bold marker_text_line (Fin 1)))"
  by (simp add: marker_text_line_string)

text \<open>
  Claim C3, as amended. For every line of glyphs and every gap ratio, the markers the
  reconstructor emits alternate strictly, open then close, starting with an open and
  ending with a close, so every emitted \<open><bold>\<close> is matched by a later emitted
  \<open></bold>\<close> and none is nested. If the line ends while the bold flag is set, the
  returned string ends with the text of the last glyph that has text followed by
  \<open></bold>\<close>. Whenever no glyph text contains the character \<open><\<close>, the markers read back
  from the returned string alternate in the same way.
\<close>

theorem bold_markup_balanced:
  "alternating (markers (reconstruct_pieces line gap_ratio)) \<and>
   reconstruct_line_with_bold line gap_ratio
     = concat (map piece_str (reconstruct_pieces line gap_ratio)) \<and>
   (in_bold (foldl (reconstruct_step gap_ratio) rstate0 line) \<longrightarrow>
      (\<exists>pre. reconstruct_line_with_bold line gap_ratio
         = pre @ ch_text (last (filter has_text line)) @ ''</bold>'')) \<and>
   ((\<forall>g\<in>set line. CHR ''<'' \<notin> set (ch_text g)) \<longrightarrow>
      alternating (scan_markers (reconstruct_line_with_bold line gap_ratio)))"
  using markers_balanced close_after_last_text_str string_balanced
  by (simp add: reconstruct_line_with_bold_def)

theorem bold_markup_balanced_witness:
  "in_bold (foldl (reconstruct_step (Fin 1)) rstate0 example_line) \<and>
   list_all (\<lambda>g. CHR ''<'' \<notin> set (ch_text g)) example_line \<and>
   reconstruct_line_with_bold example_line (Fin 1) = ''<bold>A </bold>B<bold>C</bold>'' \<and>
   alternating (markers (reconstruct_pieces example_line (Fin 1))) \<and>
   (\<exists>pre. reconstruct_line_with_bold example_line (Fin 1)
      = pre @ ch_text (last (filter has_text example_line)) @ ''</bold>'') \<and>
   alternating (scan_markers (reconstruct_line_with_bold example_line (Fin 1)))"
proof -
  have b: "in_bold (foldl (reconstruct_step (Fin 1)) rstate0 example_line)"
    by (simp add: example_line_def reconstruct_step_def rstate0_def mk_glyph_def
          looks_bold_examples Let_def)
  have t: "\<forall>g\<in>set example_line. CHR ''<'' \<notin> set (ch_text g)"
    by (simp add: example_line_def mk_glyph_def)
  have r: "reconstruct_line_with_bold example_line (Fin 1) = ''<bold>A </bold>B<bold>C</bold>''"
    by (simp add: reconstruct_line_with_bold_def example_line_pieces)
  show ?thesis
    using b t r bold_markup_balanced [of example_line "Fin 1"]
    unfolding list_all_iff by blast
qed

lemma tas_simps [simp]:
  "texts_and_spaces [] = []" "texts_and_spaces (BoldOpen # ps) = texts_and_spaces ps"
  "texts_and_spaces (BoldClose # ps) = texts_and_spaces ps"
  "texts_and_spaces (Space # ps) = Space # texts_and_spaces ps"
  "texts_and_spaces (Txt t # ps) = Txt t # texts_and_spaces ps"
  "texts_and_spaces (xs @ ys) = texts_and_spaces xs @ texts_and_spaces ys"
  by (simp_all add: texts_and_spaces_def is_marker_def)

lemma spaced_snoc:
  "spaced gr (gs @ [h]) =
     spaced gr gs @ (if gs \<noteq> [] \<and> wants_space gr (last gs) h then [Space] else [])
       @ [Txt (ch_text h)]"
  by (induction gr gs rule: spaced.induct) simp_all

lemma avg_char_w_eq:
  "(case glyph_width g of Some pw \<Rightarrow> if fless (Fin 0) pw then pw else Fin 3 | None \<Rightarrow> Fin 3)
     = reference_width g"
  by (auto simp: glyph_width_def reference_width_def pymax_def split: option.splits)

lemma space_pieces_eq:
  assumes "gap_inv gr gs s"
  shows "space_pieces gr s h = (if gs \<noteq> [] \<and> wants_space gr (last gs) h then [Space] else [])"
proof (cases "gs = []")
  case True
  with assms show ?thesis by (simp add: gap_inv_def space_pieces_def)
next
  case False
  with assms have p: "prev_x1 s = ch_x1 (last gs)" "prev_w s = glyph_width (last gs)"
    by (simp_all add: gap_inv_def)
  show ?thesis
    unfolding space_pieces_def wants_space_def p Let_def avg_char_w_eq
    using False by (simp split: option.splits)
qed

lemma tas_space_pieces: "texts_and_spaces (space_pieces gr s h) = space_pieces gr s h"
  by (simp add: space_pieces_def Let_def split: option.splits)

lemma gap_inv_step:
  assumes "gap_inv gr gs s" "ch_text h \<noteq> []"
  shows "gap_inv gr (gs @ [h]) (reconstruct_step gr s h)"
proof -
  have "texts_and_spaces (out (reconstruct_step gr s h))
          = texts_and_spaces (out s) @ space_pieces gr s h @ [Txt (ch_text h)]"
    using assms(2) by (simp add: reconstruct_step_def Let_def tas_space_pieces)
  also have "\<dots> = spaced gr (gs @ [h])"
    using assms(1) space_pieces_eq [OF assms(1), of h] by (simp add: spaced_snoc gap_inv_def)
  finally show ?thesis
    using assms(2) by (simp add: gap_inv_def reconstruct_step_def Let_def)
qed

lemma gap_inv_foldl:
  "gap_inv gr gs s \<Longrightarrow> \<forall>h\<in>set hs. ch_text h \<noteq> [] \<Longrightarrow>
   gap_inv gr (gs @ hs) (foldl (reconstruct_step gr) s hs)"
proof (induction hs arbitrary: gs s)
  case Nil
  then show ?case by simp
next
  case (Cons h hs)
  from Cons.prems have "gap_inv gr (gs @ [h]) (reconstruct_step gr s h)"
    by (simp add: gap_inv_step)
  from Cons.IH [OF this] Cons.prems show ?case by simp
qed

lemma spaces_by_gap:
  "texts_and_spaces (reconstruct_pieces line gr) = spaced gr (filter has_text line)"
proof -
  let ?hs = "filter has_text line"
  have "gap_inv gr [] rstate0" by (simp add: gap_inv_def rstate0_def)
  moreover have "\<forall>h\<in>set ?hs. ch_text h \<noteq> []" by (simp add: has_text_def)
  ultimately have "gap_inv gr ([] @ ?hs) (foldl (reconstruct_step gr) rstate0 ?hs)"
    by (rule gap_inv_foldl)
  then have "texts_and_spaces (out (foldl (reconstruct_step gr) rstate0 line)) = spaced gr ?hs"
    by (simp add: gap_inv_def foldl_skip)
  then show ?thesis
    by (cases "line = []") (simp_all add: reconstruct_pieces_def Let_def)
qed

lemma render_append [simp]: "render (xs @ ys) = render xs @ render ys"
  by (simp add: render_def)

lemma space_pieces_str:
  assumes "tracks prev s"
  shows "render (space_pieces gr s g) = space_str gr prev g"
proof (cases prev)
  case None
  with assms show ?thesis by (simp add: tracks_def space_pieces_def space_str_def render_def)
next
  case (Some p)
  with assms have t: "prev_x1 s = ch_x1 p" "prev_w s = glyph_width p" by (simp_all add: tracks_def)
  show ?thesis
    unfolding space_pieces_def wants_space_def space_str_def t Let_def avg_char_w_eq Some
    by (simp add: render_def split: option.splits)
qed

lemma step_render:
  assumes "tracks prev s" "ch_text g \<noteq> []"
  shows "render (out (reconstruct_step gr s g))
           = render (out s) @ space_str gr prev g
               @ marker_str (in_bold s) (looks_bold (ch_fontname g)) @ ch_text g"
    and "in_bold (reconstruct_step gr s g) = looks_bold (ch_fontname g)"
    and "tracks (Some g) (reconstruct_step gr s g)"
  using assms space_pieces_str [OF assms(1), of gr g]
  by (auto simp: reconstruct_step_def Let_def marker_str_def tracks_def render_def)

lemma foldl_render:
  assumes "tracks prev s" "\<forall>g\<in>set gs. ch_text g \<noteq> []"
  shows "render (out (foldl (reconstruct_step gr) s gs))
           @ (if in_bold (foldl (reconstruct_step gr) s gs) then ''</bold>'' else [])
         = render (out s) @ line_string gr prev (in_bold s) gs"
  using assms
proof (induction gs arbitrary: prev s)
  case Nil
  then show ?case by simp
next
  case (Cons g gs)
  then have g: "ch_text g \<noteq> []" by simp
  note st = step_render [OF Cons.prems(1) g, of gr]
  have "render (out (foldl (reconstruct_step gr) (reconstruct_step gr s g) gs))
          @ (if in_bold (foldl (reconstruct_step gr) (reconstruct_step gr s g) gs)
             then ''</bold>'' else [])
        = render (out (reconstruct_step gr s g))
            @ line_string gr (Some g) (in_bold (reconstruct_step gr s g)) gs"
    using Cons.prems(2) by (intro Cons.IH [OF st(3)]) simp
  then show ?case by (simp add: st(1,2))
qed

lemma rstate0_simps [simp]:
  "out rstate0 = []" "in_bold rstate0 = False" "prev_x1 rstate0 = None" "prev_w rstate0 = None"
  by (simp_all add: rstate0_def)

lemma line_string_eq:
  "reconstruct_line_with_bold line gr = line_string gr None False (filter has_text line)"
proof -
  let ?gs = "filter has_text line"
  let ?s = "foldl (reconstruct_step gr) rstate0 line"
  have s: "foldl (reconstruct_step gr) rstate0 ?gs = ?s" by (rule foldl_skip)
  have "tracks None rstate0" by (simp add: tracks_def)
  moreover have "\<forall>g\<in>set ?gs. ch_text g \<noteq> []" by (simp add: has_text_def)
  ultimately have "render (out (foldl (reconstruct_step gr) rstate0 ?gs))
      @ (if in_bold (foldl (reconstruct_step gr) rstate0 ?gs) then ''</bold>'' else [])
      = render (out rstate0) @ line_string gr None (in_bold rstate0) ?gs"
    by (rule foldl_render)
  then have e: "render (out ?s) @ (if in_bold ?s then ''</bold>'' else [])
                  = line_string gr None False ?gs"
    unfolding s by (simp add: render_def)
  show ?thesis
  proof (cases "line = []")
    case True
    then show ?thesis by (simp add: reconstruct_line_with_bold_def reconstruct_pieces_def)
  next
    case False
    then show ?thesis
      using e
      by (cases "in_bold ?s")
         (simp_all add: reconstruct_line_with_bold_def reconstruct_pieces_def Let_def render_def)
  qed
qed

lemma line_string_between:
  "\<exists>a b. line_string gr prev flag (pre @ g # h # post)
     = a @ ch_text g @ (if wants_space gr g h then '' '' else [])
         @ marker_str (looks_bold (ch_fontname g)) (looks_bold (ch_fontname h)) @ ch_text h @ b"
proof (induction pre arbitrary: prev flag)
  case Nil
  have "line_string gr prev flag (g # h # post)
     = (space_str gr prev g @ marker_str flag (looks_bold (ch_fontname g))) @ ch_text g
         @ (if wants_space gr g h then '' '' else [])
         @ marker_str (looks_bold (ch_fontname g)) (looks_bold (ch_fontname h)) @ ch_text h
         @ line_string gr (Some h) (looks_bold (ch_fontname h)) post"
    by (simp add: space_str_def)
  then show ?case by (metis append_Nil)
next
  case (Cons p pre)
  from Cons [of "Some p" "looks_bold (ch_fontname p)"] obtain a b where
    "line_string gr (Some p) (looks_bold (ch_fontname p)) (pre @ g # h # post)
       = a @ ch_text g @ (if wants_space gr g h then '' '' else [])
           @ marker_str (looks_bold (ch_fontname g)) (looks_bold (ch_fontname h)) @ ch_text h @ b"
    by blast
  then have "line_string gr prev flag ((p # pre) @ g # h # post)
       = (space_str gr prev p @ marker_str flag (looks_bold (ch_fontname p)) @ ch_text p @ a)
           @ ch_text g @ (if wants_space gr g h then '' '' else [])
           @ marker_str (looks_bold (ch_fontname g)) (looks_bold (ch_fontname h)) @ ch_text h @ b"
    by simp
  then show ?case by blast
qed

lemma between_texts:
  assumes "filter has_text line = pre @ g # h # post"
  shows "\<exists>a b. reconstruct_line_with_bold line gr
     = a @ ch_text g @ (if wants_space gr g h then '' '' else [])
         @ marker_str (looks_bold (ch_fontname g)) (looks_bold (ch_fontname h)) @ ch_text h @ b"
  using line_string_between [of gr None False pre g h post] assms
  by (simp add: line_string_eq)

text \<open>
  Claim C4. The returned string is the string the spacing rule describes: going through
  the glyphs that have text, one space character is put in front of a glyph exactly when
  the gap to the previous glyph with text (left edge of the current glyph minus right
  edge of the previous one) is greater than \<open>gap_ratio\<close> times the reference width (the
  previous glyph's width, or 3.0 when it is unknown or not positive), then the marker if
  one is due, then the glyph's text. So between the texts of two consecutive glyphs with
  text the string holds one space when the gap exceeds the threshold and none when the
  gap is at or below it, followed only by the marker that is due. Gap and threshold are
  the float values the code compares; a pair with a missing coordinate has no gap and
  gets no space.
\<close>

theorem space_iff_gap_exceeds:
  "reconstruct_line_with_bold line gap_ratio
     = line_string gap_ratio None False (filter has_text line) \<and>
   (\<forall>pre g h post. filter has_text line = pre @ g # h # post \<longrightarrow>
      (\<exists>a b. reconstruct_line_with_bold line gap_ratio
         = a @ ch_text g @ (if wants_space gap_ratio g h then '' '' else [])
             @ marker_str (looks_bold (ch_fontname g)) (looks_bold (ch_fontname h))
             @ ch_text h @ b)) \<and>
   texts_and_spaces (reconstruct_pieces line gap_ratio) = spaced gap_ratio (filter has_text line)"
  using line_string_eq between_texts spaces_by_gap by blast

lemma example_wants_space:
  "wants_space (Fin 1) (mk_glyph ''A'' 0 5 ''Arial-Bold'') (mk_glyph ''B'' 12 14 ''Arial'')"
  "\<not> wants_space (Fin 1) (mk_glyph ''B'' 12 14 ''Arial'') (mk_glyph ''C'' 14 19 ''Arial-Bold'')"
  "\<not> wants_space (Fin 1) (mk_glyph ''P'' 0 4 ''Arial'') (mk_glyph ''Q'' 8 10 ''Arial'')"
  by (simp_all add: wants_space_def reference_width_def mk_glyph_def round_b64_small)

text \<open>In the example line the gap from \<open>A\<close> to \<open>B\<close> is 7 against a threshold of 5 and
  the gap from \<open>B\<close> to \<open>C\<close> is 0; in the threshold line the gap of 4 equals the
  threshold.\<close>

theorem space_iff_gap_exceeds_witness:
  "filter has_text example_line
     = [] @ mk_glyph ''A'' 0 5 ''Arial-Bold'' # mk_glyph ''B'' 12 14 ''Arial''
          # [mk_glyph ''C'' 14 19 ''Arial-Bold''] \<and>
   wants_space (Fin 1) (mk_glyph ''A'' 0 5 ''Arial-Bold'') (mk_glyph ''B'' 12 14 ''Arial'') \<and>
   \<not> wants_space (Fin 1) (mk_glyph ''B'' 12 14 ''Arial'') (mk_glyph ''C'' 14 19 ''Arial-Bold'') \<and>
   \<not> wants_space (Fin 1) (mk_glyph ''P'' 0 4 ''Arial'') (mk_glyph ''Q'' 8 10 ''Arial'') \<and>
   line_string (Fin 1) None False (filter has_text example_line)
     = ''<bold>A </bold>B<bold>C</bold>'' \<and>
   reconstruct_line_with_bold example_line (Fin 1) = ''<bold>A </bold>B<bold>C</bold>'' \<and>
   reconstruct_line_with_bold threshold_line (Fin 1) = ''PQ'' \<and>
   (\<exists>a b. reconstruct_line_with_bold example_line (Fin 1)
      = a @ ''A'' @ '' '' @ ''</bold>'' @ ''B'' @ b)"
proof -
  have f: "filter has_text example_line
     = [] @ mk_glyph ''A'' 0 5 ''Arial-Bold'' # mk_glyph ''B'' 12 14 ''Arial''
          # [mk_glyph ''C'' 14 19 ''Arial-Bold'']"
    by (simp add: example_line_def has_text_def mk_glyph_def)
  have l: "line_string (Fin 1) None False (filter has_text example_line)
     = ''<bold>A </bold>B<bold>C</bold>''"
    unfolding f
    by (simp add: space_str_def marker_str_def example_wants_space looks_bold_examples)
       (simp add: mk_glyph_def looks_bold_examples)
  have p: "line_string (Fin 1) None False (filter has_text threshold_line) = ''PQ''"
    by (simp add: threshold_line_def has_text_def mk_glyph_def [of "''P''"] mk_glyph_def [of "''Q''"]
          space_str_def marker_str_def looks_bold_examples)
       (simp add: example_wants_space [unfolded mk_glyph_def])
  have m: "marker_str (looks_bold (ch_fontname (mk_glyph ''A'' 0 5 ''Arial-Bold'')))
             (looks_bold (ch_fontname (mk_glyph ''B'' 12 14 ''Arial''))) = ''</bold>''"
    by (simp add: marker_str_def mk_glyph_def looks_bold_examples)
  have t: "ch_text (mk_glyph ''A'' 0 5 ''Arial-Bold'') = ''A''"
    "ch_text (mk_glyph ''B'' 12 14 ''Arial'') = ''B''"
    by (simp_all add: mk_glyph_def)
  from space_iff_gap_exceeds [of example_line "Fin 1"] f
  have "\<exists>a b. reconstruct_line_with_bold example_line (Fin 1)
      = a @ ch_text (mk_glyph ''A'' 0 5 ''Arial-Bold'')
          @ (if wants_space (Fin 1) (mk_glyph ''A'' 0 5 ''Arial-Bold'')
                  (mk_glyph ''B'' 12 14 ''Arial'') then '' '' else [])
          @ marker_str (looks_bold (ch_fontname (mk_glyph ''A'' 0 5 ''Arial-Bold'')))
              (looks_bold (ch_fontname (mk_glyph ''B'' 12 14 ''Arial'')))
          @ ch_text (mk_glyph ''B'' 12 14 ''Arial'') @ b"
    by blast
  then have e: "\<exists>a b. reconstruct_line_with_bold example_line (Fin 1)
      = a @ ''A'' @ '' '' @ ''</bold>'' @ ''B'' @ b"
    by (simp only: m t example_wants_space if_True)
  show ?thesis
    using f l p e example_wants_space
      space_iff_gap_exceeds [of example_line "Fin 1"]
      space_iff_gap_exceeds [of threshold_line "Fin 1"]
    by simp
qed


section \<open>Sorting\<close>

lemma set_insert_by [simp]: "set (insert_by lt x ys) = insert x (set ys)"
  by (induction ys) auto

lemma distinct_insert_by [simp]: "distinct (insert_by lt x ys) \<longleftrightarrow> x \<notin> set ys \<and> distinct ys"
  by (induction ys) auto

lemma sorted_by_Nil [simp]: "sorted_by lt [] = []"
  by (simp add: sorted_by_def)

lemma sorted_by_Cons: "sorted_by lt (x # xs) = insert_by lt x (sorted_by lt xs)"
  by (simp add: sorted_by_def)

lemma set_sorted_by [simp]: "set (sorted_by lt xs) = set xs"
  by (induction xs) (simp_all add: sorted_by_Cons)

lemma distinct_sorted_by [simp]: "distinct (sorted_by lt xs) = distinct xs"
  by (induction xs) (simp_all add: sorted_by_Cons)

lemma python_sorter_stable: "python_sorter stable_argsort"
  by (simp add: python_sorter_def stable_argsort_def)

lemma map_insert_by:
  assumes "\<forall>j\<in>set js. lt' i j = lt (f i) (f j) \<and> lt' j i = lt (f j) (f i)"
  shows "map f (insert_by lt' i js) = insert_by lt (f i) (map f js)"
  using assms by (induction js) auto

lemma map_sorted_by:
  assumes "\<forall>i\<in>set js. \<forall>j\<in>set js. lt' i j = lt (f i) (f j)"
  shows "map f (sorted_by lt' js) = sorted_by lt (map f js)"
  using assms
proof (induction js)
  case Nil
  then show ?case by simp
next
  case (Cons j js)
  then have ih: "map f (sorted_by lt' js) = sorted_by lt (map f js)" by simp
  have "map f (insert_by lt' j (sorted_by lt' js)) = insert_by lt (f j) (map f (sorted_by lt' js))"
    using Cons.prems by (intro map_insert_by) simp
  then show ?case by (simp add: sorted_by_Cons ih)
qed

lemma py_sorted_stable:
  "py_sorted stable_argsort key xs = sorted_by (\<lambda>a b. key_less (key a) (key b)) xs"
proof -
  let ?ks = "map key xs"
  have "map (\<lambda>i. xs ! i) (sorted_by (\<lambda>i j. key_less (?ks ! i) (?ks ! j)) [0 ..< length xs])
      = sorted_by (\<lambda>a b. key_less (key a) (key b)) (map (\<lambda>i. xs ! i) [0 ..< length xs])"
    by (rule map_sorted_by) simp
  then show ?thesis by (simp add: py_sorted_def stable_argsort_def map_nth)
qed

lemma set_py_sorted:
  assumes "python_sorter srt"
  shows "set (py_sorted srt key xs) = set xs"
proof -
  from assms have "set (srt (map key xs)) = {0 ..< length xs}"
    by (simp add: python_sorter_def)
  then have "set (py_sorted srt key xs) = (\<lambda>i. xs ! i) ` {0 ..< length xs}"
    by (simp add: py_sorted_def)
  also have "\<dots> = set xs" by (auto simp: set_conv_nth)
  finally show ?thesis .
qed

lemma py_sorted_Nil [simp]: "python_sorter srt \<Longrightarrow> py_sorted srt key [] = []"
  using set_py_sorted [of srt key "[]"] by simp

lemma py_sorted_no_nan:
  assumes "python_sorter srt" "\<forall>x\<in>set xs. \<not> key_has_nan (key x)"
  shows "py_sorted srt key xs = sorted_by (\<lambda>a b. key_less (key a) (key b)) xs"
proof -
  from assms(2) have "list_all (\<lambda>k. \<not> key_has_nan k) (map key xs)"
    by (simp add: list_all_iff)
  with assms(1) have "srt (map key xs) = stable_argsort (map key xs)"
    by (simp add: python_sorter_def)
  then have "py_sorted srt key xs = py_sorted stable_argsort key xs" by (simp add: py_sorted_def)
  then show ?thesis by (simp add: py_sorted_stable)
qed


section \<open>The page range\<close>

lemma range_from_single: "range_from (a - 1) a = [a - 1]"
  by (simp add: range_from_def)

lemma range_from_set: "i \<in> set (range_from a b) \<longleftrightarrow> a \<le> i \<and> i < b"
proof
  assume "i \<in> set (range_from a b)"
  then obtain k where "i = a + int k" "k < nat (b - a)" by (auto simp: range_from_def)
  then show "a \<le> i \<and> i < b" by auto
next
  assume h: "a \<le> i \<and> i < b"
  then have "nat (i - a) \<in> set [0 ..< nat (b - a)]" by auto
  then have "a + int (nat (i - a)) \<in> (\<lambda>k. a + int k) ` set [0 ..< nat (b - a)]" by (rule imageI)
  with h show "i \<in> set (range_from a b)" by (simp add: range_from_def)
qed

lemma start_past_end:
  assumes "int (length pages) < max 1 (start_page opts)"
  shows "pdf_to_txt_parity_boxes srt (Some pages) opts = Inl IndexError"
proof -
  let ?sp = "max 1 (start_page opts)"
  let ?total = "int (length pages)"
  let ?ep0 = "case end_page opts of Some e \<Rightarrow> e | None \<Rightarrow> ?total"
  have "max ?sp (min ?ep0 ?total) = ?sp" using assms by simp
  moreover have "pages_loop srt opts pages [?sp - 1] [] = Inl IndexError" using assms by simp
  ultimately show ?thesis
    by (simp add: pdf_to_txt_parity_boxes_def Let_def range_from_single)
qed

lemma start_in_range:
  assumes "max 1 (start_page opts) \<le> int (length pages)"
  shows "list_all (\<lambda>i. 0 \<le> i \<and> i < int (length pages))
           (range_from (max 1 (start_page opts) - 1)
              (max (max 1 (start_page opts))
                 (min (case end_page opts of Some e \<Rightarrow> e | None \<Rightarrow> int (length pages))
                    (int (length pages)))))"
  using assms by (auto simp: list_all_iff range_from_set)

text \<open>
  Claim C2. The page range is \<open>sp = max 1 start_page\<close> and
  \<open>ep = max sp (min end_page T)\<close> for a document of \<open>T\<close> pages, and the loop
  reads the pages of index \<open>sp - 1\<close> up to \<open>ep - 1\<close>. When the start page is
  greater than \<open>T\<close> the clamping gives \<open>ep = sp\<close>, the loop reads the one index
  \<open>sp - 1 \<ge> T\<close> and the conversion ends with \<open>IndexError\<close>: it does not
  return the empty output. When the start page is at most \<open>T\<close>, every index the loop
  reads is a page of the document.
\<close>

theorem start_beyond_last_page_raises:
  "(int (length pages) < max 1 (start_page opts) \<longrightarrow>
      pdf_to_txt_parity_boxes srt (Some pages) opts = Inl IndexError) \<and>
   (max 1 (start_page opts) \<le> int (length pages) \<longrightarrow>
      list_all (\<lambda>i. 0 \<le> i \<and> i < int (length pages))
        (range_from (max 1 (start_page opts) - 1)
           (max (max 1 (start_page opts))
              (min (case end_page opts of Some e \<Rightarrow> e | None \<Rightarrow> int (length pages))
                 (int (length pages))))))"
  using start_past_end start_in_range by blast

theorem start_beyond_last_page_raises_witness:
  "int (length [empty_page, empty_page, empty_page]) < max 1 (start_page example_opts) \<and>
   pdf_to_txt_parity_boxes stable_argsort (Some [empty_page, empty_page, empty_page]) example_opts
     = Inl IndexError \<and>
   max 1 (start_page (example_opts\<lparr>start_page := 2\<rparr>))
     \<le> int (length [empty_page, empty_page, empty_page]) \<and>
   range_from (max 1 (start_page (example_opts\<lparr>start_page := 2\<rparr>)) - 1)
     (max (max 1 (start_page (example_opts\<lparr>start_page := 2\<rparr>)))
        (min (case end_page (example_opts\<lparr>start_page := 2\<rparr>) of Some e \<Rightarrow> e
              | None \<Rightarrow> int (length [empty_page, empty_page, empty_page]))
           (int (length [empty_page, empty_page, empty_page]))))
     = [1, 2]"
proof -
  have a: "int (length [empty_page, empty_page, empty_page]) < max 1 (start_page example_opts)"
    by (simp add: example_opts_def)
  have b: "max 1 (start_page (example_opts\<lparr>start_page := 2\<rparr>))
     \<le> int (length [empty_page, empty_page, empty_page])"
    by simp
  have c: "range_from 1 3 = [1, 2]" by code_simp
  show ?thesis
    using a b c
      start_beyond_last_page_raises [of "[empty_page, empty_page, empty_page]" example_opts
        stable_argsort]
    by (simp add: example_opts_def)
qed



section \<open>The line tolerance\<close>

lemma pymax_one_idem: "pymax (Fin 1) (pymax (Fin 1) y) = pymax (Fin 1) y"
  by (simp add: pymax_def)

lemma pymax_one_low: "\<not> fless (Fin 1) y \<Longrightarrow> pymax (Fin 1) y = Fin 1"
  by (simp add: pymax_def)

lemma fless_asym: "fless a b \<Longrightarrow> \<not> fless b a"
  by (cases a; cases b) auto

lemma pymax_one_ge: "fle (Fin 1) (pymax (Fin 1) y)"
  by (cases y) (auto simp: pymax_def fle_def)

lemma column_text_tol:
  "column_text srt pg y0 y1 (pymax (Fin 1) yt) = column_text srt pg y0 y1 yt"
  by (rule ext) (simp add: column_text_def Let_def pymax_one_idem)

lemma extract_tol:
  "extract_page_columns srt pg boxes hr fr xt (pymax (Fin 1) yt)
     = extract_page_columns srt pg boxes hr fr xt yt"
  by (simp add: extract_page_columns_def Let_def column_text_tol)

lemma rhe_numeral [simp]: "round_half_even (numeral n) = numeral n"
  using rhe_of_int [of "numeral n"] by simp

lemma rhe_zero [simp]: "round_half_even 0 = 0"
  using rhe_of_int [of 0] by simp

lemma column_text_at_eq:
  "column_text srt pg y0 y1 yt = column_text_at srt pg y0 y1 (pymax (Fin 1) yt)"
  by (rule ext) (simp add: column_text_def column_text_at_def)

lemma extract_at_eq:
  "extract_page_columns srt pg boxes hr fr xt yt
     = columns_at_tolerance srt pg boxes hr fr (pymax (Fin 1) yt)"
  by (simp add: extract_page_columns_def columns_at_tolerance_def column_text_at_eq)

lemma extract_below_one:
  assumes "fless yt (Fin 1)"
  shows "extract_page_columns srt pg boxes hr fr xt yt
           = extract_page_columns srt pg boxes hr fr xt (Fin 1)"
proof -
  from assms have "\<not> fless (Fin 1) yt" by (rule fless_asym)
  then have "pymax (Fin 1) yt = Fin 1" by (rule pymax_one_low)
  then show ?thesis using extract_tol [of srt pg boxes hr fr xt yt] by simp
qed

text \<open>
  Claim C9. Column extraction hands \<open>max(1.0, y_tolerance)\<close> to the line grouper: its
  result is the result of the extraction run at the tolerance \<open>pymax (Fin 1) yt\<close>; for
  every \<open>yt\<close> below 1.0 it is the result for \<open>yt = 1.0\<close>; and the tolerance applied is
  never below 1.0.
\<close>

theorem tolerance_floor:
  "extract_page_columns srt pg boxes hr fr xt yt
     = columns_at_tolerance srt pg boxes hr fr (pymax (Fin 1) yt) \<and>
   (fless yt (Fin 1) \<longrightarrow>
      extract_page_columns srt pg boxes hr fr xt yt
        = extract_page_columns srt pg boxes hr fr xt (Fin 1)) \<and>
   fle (Fin 1) (pymax (Fin 1) yt)"
  using extract_at_eq extract_below_one pymax_one_ge by blast

lemma round_b64_three_quarters: "round_b64 (3 / 4) = Fin (3 / 4)"
  using round_b64_exact [of 3 "- 2"] by (simp add: pow2_def)

lemma example_keys:
  "top_x0_key (plain_glyph ''a'' 0) = PairKey (Fin 0) (Fin 0)"
  "top_x0_key (plain_glyph ''b'' (3 / 4)) = PairKey (Fin (3 / 4)) (Fin 0)"
  "x0_key (plain_glyph t y) = FloatKey (Fin 0)"
  by (simp_all add: top_x0_key_def x0_key_def plain_glyph_def get_top_def get_x0_def round3_def
        round_b64_three_quarters)

lemma example_sorted:
  "py_sorted stable_argsort top_x0_key [plain_glyph ''a'' 0, plain_glyph ''b'' (3 / 4)]
     = [plain_glyph ''a'' 0, plain_glyph ''b'' (3 / 4)]"
  "py_sorted stable_argsort x0_key [plain_glyph t y] = [plain_glyph t y]"
  "py_sorted stable_argsort x0_key [plain_glyph t y, plain_glyph t' y']
     = [plain_glyph t y, plain_glyph t' y']"
  by (simp_all add: py_sorted_stable sorted_by_Cons example_keys)

lemma example_gap: "fabs (fsub (Fin (3 / 4)) (Fin 0)) = Fin (3 / 4)"
  by (simp add: round_b64_three_quarters)

lemma example_tops:
  "get_top (plain_glyph t y) = Fin y"
  by (simp add: get_top_def plain_glyph_def)

lemma example_groups:
  "group_chars_into_lines stable_argsort [plain_glyph ''a'' 0, plain_glyph ''b'' (3 / 4)] (Fin 1)
     = [[plain_glyph ''a'' 0, plain_glyph ''b'' (3 / 4)]]"
  "group_chars_into_lines stable_argsort [plain_glyph ''a'' 0, plain_glyph ''b'' (3 / 4)]
     (Fin (1 / 2))
     = [[plain_glyph ''a'' 0], [plain_glyph ''b'' (3 / 4)]]"
  by (simp_all add: group_chars_into_lines_def group_step_def example_sorted example_tops
        example_gap Let_def round_b64_three_quarters)


lemma clean_lines_ab: "clean_lines ''ab'' = ''ab''"
  by code_simp

lemma clean_lines_a_b: "clean_lines (''a'' @ [CHR 0x0A] @ ''b'') = ''a'' @ [CHR 0x0A] @ ''b''"
  by code_simp

lemmas clean_lines_examples = clean_lines_ab clean_lines_a_b

lemma plain_line:
  "reconstruct_line_with_bold [plain_glyph ''a'' 0, plain_glyph ''b'' (3 / 4)] (Fin (1 / 2)) = ''ab''"
  "reconstruct_line_with_bold [plain_glyph ''a'' 0] (Fin (1 / 2)) = ''a''"
  "reconstruct_line_with_bold [plain_glyph ''b'' (3 / 4)] (Fin (1 / 2)) = ''b''"
  by (simp_all add: reconstruct_line_with_bold_def reconstruct_pieces_def reconstruct_step_def
        rstate0_def plain_glyph_def looks_bold_def space_pieces_def Let_def lower_def contains_def)

lemma example_text:
  "extract_text_with_bold stable_argsort example_page bb (Fin 1) = ''ab''"
  "extract_text_with_bold stable_argsort example_page bb (Fin (1 / 2)) = ''a'' @ [CHR 0x0A] @ ''b''"
  using clean_lines_examples
  by (simp_all add: extract_text_with_bold_def example_page_def example_groups plain_line Let_def)

lemma example_page_dims:
  "page_width example_page = Fin 600" "page_height example_page = Fin 800"
  by (simp_all add: example_page_def)

lemma example_columns:
  "columns_at_tolerance stable_argsort example_page [(Fin 0, Fin 600)] (Fin 0) (Fin 0) (Fin 1)
     = ''ab''"
  "columns_at_tolerance stable_argsort example_page [(Fin 0, Fin 600)] (Fin 0) (Fin 0)
     (Fin (1 / 2)) = ''a'' @ [CHR 0x0A] @ ''b''"
  using clean_lines_examples
  by (simp_all add: columns_at_tolerance_def column_text_at_def example_text Let_def
        pymax_def pymin_def example_page_dims)

theorem tolerance_floor_witness:
  "fless (Fin (1 / 2)) (Fin 1) \<and>
   pymax (Fin 1) (Fin (1 / 2)) = Fin 1 \<and>
   extract_page_columns stable_argsort example_page [(Fin 0, Fin 600)] (Fin 0) (Fin 0) (Fin 1)
     (Fin (1 / 2)) = ''ab'' \<and>
   extract_page_columns stable_argsort example_page [(Fin 0, Fin 600)] (Fin 0) (Fin 0) (Fin 1)
     (Fin 1) = ''ab'' \<and>
   columns_at_tolerance stable_argsort example_page [(Fin 0, Fin 600)] (Fin 0) (Fin 0)
     (Fin (1 / 2)) = ''a'' @ [CHR 0x0A] @ ''b''"
proof -
  have a: "fless (Fin (1 / 2)) (Fin 1)" by simp
  have b: "pymax (Fin 1) (Fin (1 / 2)) = Fin 1" by (simp add: pymax_def)
  note t = tolerance_floor [of stable_argsort example_page "[(Fin 0, Fin 600)]" "Fin 0" "Fin 0"
        "Fin 1" "Fin (1 / 2)"]
  from t have c: "extract_page_columns stable_argsort example_page [(Fin 0, Fin 600)] (Fin 0)
      (Fin 0) (Fin 1) (Fin (1 / 2)) = ''ab''"
    by (simp add: b example_columns)
  from t a have "extract_page_columns stable_argsort example_page [(Fin 0, Fin 600)] (Fin 0)
      (Fin 0) (Fin 1) (Fin (1 / 2))
    = extract_page_columns stable_argsort example_page [(Fin 0, Fin 600)] (Fin 0)
      (Fin 0) (Fin 1) (Fin 1)"
    by blast
  with c have d: "extract_page_columns stable_argsort example_page [(Fin 0, Fin 600)] (Fin 0)
      (Fin 0) (Fin 1) (Fin 1) = ''ab''"
    by simp
  show ?thesis using a b c d example_columns(2) by simp
qed

end
